theory Spec2Isabelle
  imports Complex_Main
begin

unbundle bit_operations_syntax

section \<open>The interactive glyph grid of \<open>script.js\<close>\<close>

text \<open>
  The first closure of \<open>src/script.js\<close> (lines 4 to 210) keeps a grid of cells, a set of
  packed coordinates of the cells that are animating, the tracked pointer cell and the time
  of the last scramble tick. This theory embeds its functions one by one.

  Conventions of the embedding:
  \<^item> JavaScript numbers that hold time stamps, pointer coordinates and results of
    \<open>Math.random\<close> are real numbers; counters and grid indices are integers or naturals.
    The arithmetic on them is exact, where JavaScript rounds every operation to a double:
    an interpolated colour channel of the embedding can differ by one from the channel the
    browser computes when the exact value lies within rounding error of a half.
  \<^item> \<open>Math.random\<close> reads the next element of a sequence \<open>rnd\<close> kept in the state
    together with the read position \<open>rpos\<close>.
  \<^item> Reading \<open>grid[r][c]\<close> outside the arrays and then using the result raises a
    \<open>TypeError\<close> in JavaScript; the embedding returns \<open>Inl TypeError\<close>.
  \<^item> The canvas is write-only for this code, so \<open>drawCell\<close> and \<open>fullDraw\<close> have no
    effect on the modelled state and are left out, as are the device pixel ratio and the
    handle of the requested animation frame.
  \<^item> The browser calls \<open>onMouseMove\<close>, \<open>onMouseLeave\<close>, \<open>buildGrid\<close> (the debounced resize
    handler) and \<open>animate\<close> one at a time; each is a function from the state to the next
    state.
\<close>

subsection \<open>Configuration\<close>

definition SYMBOLS :: string where
  "SYMBOLS = ''@#%^&*[]{}~<>|/'' @ [CHR 0x5C] @ ''+-=.:;!?$''"

definition CELL_SIZE :: real where "CELL_SIZE = 22"
definition BASE_COLOR :: string where "BASE_COLOR = ''#e0e0e0''"
definition HOVER_COLOR :: string where "HOVER_COLOR = ''#888888''"
definition SCRAMBLE_FRAMES :: int where "SCRAMBLE_FRAMES = 6"
definition SETTLE_DURATION :: real where "SETTLE_DURATION = 400"
definition FRAME_INTERVAL :: real where "FRAME_INTERVAL = 1000 / 20"

subsection \<open>Data\<close>

datatype cell_state = Idle | Scramble | Settling

text \<open>A glyph is a character; \<open>None\<close> stands for \<open>null\<close> (and for \<open>undefined\<close>).\<close>

record cell =
  symbol :: "char option"
  origSymbol :: "char option"
  color :: string
  state :: cell_state
  framesLeft :: int
  settleStart :: real

text \<open>
  The module-level variables. The dirty set is a JavaScript \<open>Set\<close>: a list without
  repetitions in insertion order, which is the order \<open>forEach\<close> visits.
\<close>

record engine =
  cols :: nat
  rows :: nat
  grid :: "cell list list"
  dirtySet :: "nat list"
  mouseCol :: int
  mouseRow :: int
  lastFrame :: real
  rnd :: "nat \<Rightarrow> real"
  rpos :: nat

datatype error = TypeError

definition set_add :: "nat \<Rightarrow> nat list \<Rightarrow> nat list" where
  "set_add k ks = (if k \<in> set ks then ks else ks @ [k])"

definition set_delete :: "nat \<Rightarrow> nat list \<Rightarrow> nat list" where
  "set_delete k ks = removeAll k ks"

definition grid_get :: "cell list list \<Rightarrow> nat \<Rightarrow> nat \<Rightarrow> error + cell" where
  "grid_get g r c =
     (if r < length g \<and> c < length (g ! r) then Inr (g ! r ! c) else Inl TypeError)"

text \<open>Writing the fields of the cell object found at \<open>grid[r][c]\<close>.\<close>

definition grid_set :: "cell list list \<Rightarrow> nat \<Rightarrow> nat \<Rightarrow> cell \<Rightarrow> cell list list" where
  "grid_set g r c x = g[r := (g ! r)[c := x]]"

fun fold_err :: "('a \<Rightarrow> 'b \<Rightarrow> error + 'b) \<Rightarrow> 'a list \<Rightarrow> 'b \<Rightarrow> error + 'b" where
  "fold_err f [] b = Inr b"
| "fold_err f (x # xs) b = (case f x b of Inl e \<Rightarrow> Inl e | Inr b' \<Rightarrow> fold_err f xs b')"

subsection \<open>Helpers\<close>

definition Math_random :: "engine \<Rightarrow> real \<times> engine" where
  "Math_random s = (rnd s (rpos s), s\<lparr>rpos := Suc (rpos s)\<rparr>)"

definition js_index :: "'a list \<Rightarrow> int \<Rightarrow> 'a option" where
  "js_index xs i = (if 0 \<le> i \<and> nat i < length xs then Some (xs ! nat i) else None)"

definition randSymbol :: "engine \<Rightarrow> char option \<times> engine" where
  "randSymbol s =
     (case Math_random s of
        (u, s') \<Rightarrow> (js_index SYMBOLS \<lfloor>u * real (length SYMBOLS)\<rfloor>, s'))"

text \<open>\<open>key\<close> (line 29) and the decoding of line 140 and 141.\<close>

definition key :: "nat \<Rightarrow> nat \<Rightarrow> nat" where
  "key r c = r * 10000 + c"

definition key_row :: "nat \<Rightarrow> nat" where
  "key_row k = k div 10000"

definition key_col :: "nat \<Rightarrow> nat" where
  "key_col k = k mod 10000"

subsection \<open>Colour helpers\<close>

text \<open>
  The 32-bit operators of JavaScript convert their operands with \<open>ToInt32\<close>.
  \<open>parseInt(str, 16)\<close> skips leading white space, takes an optional sign and an optional
  prefix \<open>0x\<close> or \<open>0X\<close>, reads the longest prefix of hexadecimal digits and yields \<open>NaN\<close>
  (here \<open>None\<close>, which \<open>ToInt32\<close> takes to 0) when there is no digit. Characters are
  8-bit code units, among which the white space of JavaScript is tab, line feed, vertical
  tab, form feed, carriage return, space and the no-break space (code 160). The value is
  exact, where JavaScript rounds to a double above \<open>2\<^sup>5\<^sup>3\<close>; the colour strings of this
  program have six digits.
\<close>

definition ToInt32 :: "int \<Rightarrow> int" where
  "ToInt32 n = signed_take_bit 31 n"

definition js_shl :: "int \<Rightarrow> nat \<Rightarrow> int" where
  "js_shl x k = ToInt32 (push_bit k (ToInt32 x))"

definition js_sar :: "int \<Rightarrow> nat \<Rightarrow> int" where
  "js_sar x k = drop_bit k (ToInt32 x)"

definition js_and :: "int \<Rightarrow> int \<Rightarrow> int" where
  "js_and x y = ToInt32 x AND ToInt32 y"

definition js_or :: "int \<Rightarrow> int \<Rightarrow> int" where
  "js_or x y = ToInt32 x OR ToInt32 y"

definition hexval :: "char \<Rightarrow> nat option" where
  "hexval ch =
     (let n = (of_char ch :: nat) in
      if 48 \<le> n \<and> n \<le> 57 then Some (n - 48)
      else if 97 \<le> n \<and> n \<le> 102 then Some (n - 87)
      else if 65 \<le> n \<and> n \<le> 70 then Some (n - 55)
      else None)"

fun parse_hex :: "nat \<Rightarrow> string \<Rightarrow> nat" where
  "parse_hex acc [] = acc"
| "parse_hex acc (ch # cs) =
     (case hexval ch of None \<Rightarrow> acc | Some d \<Rightarrow> parse_hex (acc * 16 + d) cs)"

definition is_white :: "char \<Rightarrow> bool" where
  "is_white ch = ((of_char ch :: nat) \<in> {9, 10, 11, 12, 13, 32, 160})"

definition parseInt16 :: "string \<Rightarrow> int option" where
  "parseInt16 str =
     (let s1 = dropWhile is_white str;
          neg = (case s1 of [] \<Rightarrow> False | ch # cs \<Rightarrow> ch = CHR ''-'');
          s2 = (case s1 of
                  [] \<Rightarrow> []
                | ch # cs \<Rightarrow> if ch = CHR ''-'' \<or> ch = CHR ''+'' then cs else s1);
          s3 = (case s2 of
                  [] \<Rightarrow> s2
                | a # r \<Rightarrow>
                    (case r of
                       [] \<Rightarrow> s2
                     | b # cs \<Rightarrow>
                         if a = CHR ''0'' \<and> (b = CHR ''x'' \<or> b = CHR ''X'') then cs else s2))
      in case s3 of
           [] \<Rightarrow> None
         | ch # cs \<Rightarrow>
             if hexval ch = None then None
             else Some (if neg then - int (parse_hex 0 s3) else int (parse_hex 0 s3)))"

definition hexToRGB :: "string \<Rightarrow> int \<times> int \<times> int" where
  "hexToRGB hex =
     (let n = (case parseInt16 (drop 1 hex) of None \<Rightarrow> 0 | Some v \<Rightarrow> v)
      in (js_and (js_sar n 16) 255, js_and (js_sar n 8) 255, js_and n 255))"

definition hexdigit :: "nat \<Rightarrow> char" where
  "hexdigit d = ''0123456789abcdef'' ! d"

fun toString16_nat :: "nat \<Rightarrow> string" where
  "toString16_nat n =
     (if n < 16 then [hexdigit n] else toString16_nat (n div 16) @ [hexdigit (n mod 16)])"

declare toString16_nat.simps [simp del]

definition toString16 :: "int \<Rightarrow> string" where
  "toString16 n = (if n < 0 then CHR ''-'' # toString16_nat (nat (- n)) else toString16_nat (nat n))"

definition rgbToHex :: "int \<Rightarrow> int \<Rightarrow> int \<Rightarrow> string" where
  "rgbToHex r g b =
     ''#'' @ drop 1 (toString16 (js_or (js_or (js_or (js_shl 1 24) (js_shl r 16)) (js_shl g 8)) b))"

text \<open>\<open>Math.round\<close> rounds to the nearest integer, a half towards plus infinity.\<close>

definition Math_round :: "real \<Rightarrow> int" where
  "Math_round x = \<lfloor>x + 1 / 2\<rfloor>"

definition lerpColor :: "string \<Rightarrow> string \<Rightarrow> real \<Rightarrow> string" where
  "lerpColor a b t =
     (case hexToRGB a of (ar, ag, ab) \<Rightarrow>
      case hexToRGB b of (br, bg, bb) \<Rightarrow>
        rgbToHex (Math_round (real_of_int ar + real_of_int (br - ar) * t))
                 (Math_round (real_of_int ag + real_of_int (bg - ag) * t))
                 (Math_round (real_of_int ab + real_of_int (bb - ab) * t)))"

definition easeOutCubic :: "real \<Rightarrow> real" where
  "easeOutCubic t = 1 - (1 - t) ^ 3"

subsection \<open>Building the grid\<close>

definition new_cell :: "char option \<Rightarrow> cell" where
  "new_cell glyph =
     \<lparr>symbol = glyph, origSymbol = None, color = BASE_COLOR, state = Idle,
      framesLeft = 0, settleStart = 0\<rparr>"

text \<open>
  The inner loop of \<open>buildGrid\<close> with \<open>n\<close> columns still to push, and the outer loop
  with \<open>m\<close> rows still to push.
\<close>

fun build_row :: "nat \<Rightarrow> cell list \<Rightarrow> engine \<Rightarrow> cell list \<times> engine" where
  "build_row 0 row s = (row, s)"
| "build_row (Suc n) row s =
     (case randSymbol s of (glyph, s') \<Rightarrow> build_row n (row @ [new_cell glyph]) s')"

fun build_rows :: "nat \<Rightarrow> nat \<Rightarrow> cell list list \<Rightarrow> engine \<Rightarrow> cell list list \<times> engine" where
  "build_rows 0 n g s = (g, s)"
| "build_rows (Suc m) n g s =
     (case build_row n [] s of (row, s') \<Rightarrow> build_rows m n (g @ [row]) s')"

text \<open>\<open>buildGrid\<close>; the arguments are \<open>canvas.clientWidth\<close> and \<open>canvas.clientHeight\<close>.\<close>

definition buildGrid :: "nat \<Rightarrow> nat \<Rightarrow> engine \<Rightarrow> engine" where
  "buildGrid clientWidth clientHeight s =
     (let s1 = s\<lparr>cols := nat \<lceil>real clientWidth / CELL_SIZE\<rceil> + 1,
                 rows := nat \<lceil>real clientHeight / CELL_SIZE\<rceil> + 1\<rparr>
      in case build_rows (rows s1) (cols s1) [] s1 of
           (g, s2) \<Rightarrow> s2\<lparr>grid := g\<rparr>)"

subsection \<open>Mouse tracking\<close>

text \<open>The body of the two nested loops of \<open>onMouseMove\<close> at the cell \<open>(rr, cc)\<close>.\<close>

definition activate :: "int \<Rightarrow> int \<Rightarrow> engine \<Rightarrow> error + engine" where
  "activate rr cc s =
     (if 0 \<le> rr \<and> rr < int (rows s) \<and> 0 \<le> cc \<and> cc < int (cols s) then
        (case grid_get (grid s) (nat rr) (nat cc) of
           Inl e \<Rightarrow> Inl e
         | Inr x \<Rightarrow>
             if state x = Idle then
               (case Math_random s of
                  (u, s1) \<Rightarrow>
                    Inr (s1\<lparr>grid := grid_set (grid s1) (nat rr) (nat cc)
                                 (x\<lparr>state := Scramble, origSymbol := symbol x,
                                    framesLeft := SCRAMBLE_FRAMES + \<lfloor>u * 3\<rfloor>\<rparr>),
                             dirtySet := set_add (key (nat rr) (nat cc)) (dirtySet s1)\<rparr>))
             else Inr s)
      else Inr s)"

text \<open>The offsets \<open>(dr, dc)\<close> in the order the two loops enumerate them.\<close>

definition offsets :: "(int \<times> int) list" where
  "offsets = concat (map (\<lambda>dr. map (\<lambda>dc. (dr, dc)) [-1, 0, 1]) [-1, 0, 1])"

definition visit :: "int \<times> int \<Rightarrow> engine \<Rightarrow> error + engine" where
  "visit off s = (case off of (dr, dc) \<Rightarrow> activate (mouseRow s + dr) (mouseCol s + dc) s)"

text \<open>\<open>onMouseMove\<close>; \<open>mx\<close> and \<open>my\<close> are the pointer coordinates relative to the canvas.\<close>

definition onMouseMove :: "real \<Rightarrow> real \<Rightarrow> engine \<Rightarrow> error + engine" where
  "onMouseMove mx my s =
     (let newCol = \<lfloor>mx / CELL_SIZE\<rfloor>; newRow = \<lfloor>my / CELL_SIZE\<rfloor> in
      if newCol = mouseCol s \<and> newRow = mouseRow s then Inr s
      else fold_err visit offsets (s\<lparr>mouseCol := newCol, mouseRow := newRow\<rparr>))"

definition onMouseLeave :: "engine \<Rightarrow> engine" where
  "onMouseLeave s = s\<lparr>mouseCol := - 1, mouseRow := - 1\<rparr>"

subsection \<open>The animation loop\<close>

text \<open>
  The callback given to \<open>dirtySet.forEach\<close>; the second component of the pair is the
  array \<open>toRemove\<close>.
\<close>

definition processKey ::
    "real \<Rightarrow> bool \<Rightarrow> nat \<Rightarrow> engine \<times> nat list \<Rightarrow> error + engine \<times> nat list" where
  "processKey now doScrambleTick k st =
     (case st of (s, toRemove) \<Rightarrow>
        let r = key_row k; c = key_col k in
        if r \<ge> rows s \<or> c \<ge> cols s then Inr (s, toRemove @ [k])
        else
          case grid_get (grid s) r c of
            Inl e \<Rightarrow> Inl e
          | Inr x \<Rightarrow>
              if state x = Scramble then
                (if doScrambleTick then
                   (case randSymbol s of
                      (glyph, s1) \<Rightarrow>
                        let x1 = x\<lparr>symbol := glyph, color := HOVER_COLOR,
                                   framesLeft := framesLeft x - 1\<rparr>;
                            x2 = (if framesLeft x1 \<le> 0
                                  then x1\<lparr>state := Settling, symbol := origSymbol x1,
                                          settleStart := now\<rparr>
                                  else x1)
                        in Inr (s1\<lparr>grid := grid_set (grid s1) r c x2\<rparr>, toRemove))
                 else Inr (s, toRemove))
              else if state x = Settling then
                (let elapsed = now - settleStart x;
                     t = min (elapsed / SETTLE_DURATION) 1;
                     x1 = x\<lparr>color := lerpColor HOVER_COLOR BASE_COLOR (easeOutCubic t)\<rparr>
                 in if t \<ge> 1
                    then Inr (s\<lparr>grid := grid_set (grid s) r c
                                   (x1\<lparr>state := Idle, color := BASE_COLOR, origSymbol := None\<rparr>)\<rparr>,
                              toRemove @ [k])
                    else Inr (s\<lparr>grid := grid_set (grid s) r c x1\<rparr>, toRemove))
              else Inr (s, toRemove @ [k]))"

text \<open>\<open>animate\<close>, one call of the per-frame callback with time stamp \<open>now\<close>.\<close>

definition animate :: "real \<Rightarrow> engine \<Rightarrow> error + engine" where
  "animate now s =
     (let deltaFrame = now - lastFrame s;
          doScrambleTick = (deltaFrame \<ge> FRAME_INTERVAL);
          s0 = (if doScrambleTick then s\<lparr>lastFrame := now\<rparr> else s)
      in case fold_err (processKey now doScrambleTick) (dirtySet s0) (s0, []) of
           Inl e \<Rightarrow> Inl e
         | Inr (s1, toRemove) \<Rightarrow> Inr (s1\<lparr>dirtySet := fold set_delete toRemove (dirtySet s1)\<rparr>))"

section \<open>Notions used to state and prove the properties\<close>

text \<open>
  The grid arrays have the dimensions stored in \<open>rows\<close> and \<open>cols\<close>, as \<open>buildGrid\<close> leaves them.
\<close>

definition wf_grid :: "engine \<Rightarrow> bool" where
  "wf_grid s = (length (grid s) = rows s \<and> list_all (\<lambda>row. length row = cols s) (grid s))"

text \<open>
  The cell \<open>(r, c)\<close> is reached from the tracked pointer cell by one of the given offsets.
\<close>

definition in_block :: "(int \<times> int) list \<Rightarrow> engine \<Rightarrow> nat \<Rightarrow> nat \<Rightarrow> bool" where
  "in_block offs s r c = ((int r - mouseRow s, int c - mouseCol s) \<in> set offs)"

text \<open>
  The cell \<open>(r, c)\<close> is the tracked pointer cell shifted by the offset.
\<close>

definition at_off :: "int \<times> int \<Rightarrow> engine \<Rightarrow> nat \<Rightarrow> nat \<Rightarrow> bool" where
  "at_off off s r c = (mouseRow s + fst off = int r \<and> mouseCol s + snd off = int c)"

text \<open>
  The cell record after the three assignments of an activation with random draw \<open>u\<close>.
\<close>

definition armed :: "real \<Rightarrow> cell \<Rightarrow> cell" where
  "armed u x = x\<lparr>state := Scramble, origSymbol := symbol x,
                  framesLeft := SCRAMBLE_FRAMES + \<lfloor>u * 3\<rfloor>\<rparr>"

text \<open>
  The effect of \<open>visit\<close> on a well-formed grid, where no access can fail.
\<close>

definition visit_pure :: "int \<times> int \<Rightarrow> engine \<Rightarrow> engine" where
  "visit_pure off s =
     (case off of (dr, dc) \<Rightarrow>
        let rr = mouseRow s + dr; cc = mouseCol s + dc in
        if 0 \<le> rr \<and> rr < int (rows s) \<and> 0 \<le> cc \<and> cc < int (cols s) \<and>
           state (grid s ! nat rr ! nat cc) = Idle
        then s\<lparr>rpos := Suc (rpos s),
               grid := grid_set (grid s) (nat rr) (nat cc)
                         (armed (rnd s (rpos s)) (grid s ! nat rr ! nat cc)),
               dirtySet := set_add (key (nat rr) (nat cc)) (dirtySet s)\<rparr>
        else s)"

text \<open>
  A key whose decoded coordinates lie outside the current grid.
\<close>

definition stale :: "engine \<Rightarrow> nat \<Rightarrow> bool" where
  "stale s k = (key_row k \<ge> rows s \<or> key_col k \<ge> cols s)"

text \<open>
  The cell record after \<open>processKey\<close> has handled it; \<open>glyph\<close> is the glyph drawn on a scramble tick.
\<close>

definition cell_next :: "real \<Rightarrow> bool \<Rightarrow> char option \<Rightarrow> cell \<Rightarrow> cell" where
  "cell_next now tk glyph x =
     (if state x = Scramble then
        (if tk then
           (if framesLeft x - 1 \<le> 0
            then x\<lparr>symbol := glyph, color := HOVER_COLOR, framesLeft := framesLeft x - 1,
                   state := Settling, symbol := origSymbol x, settleStart := now\<rparr>
            else x\<lparr>symbol := glyph, color := HOVER_COLOR, framesLeft := framesLeft x - 1\<rparr>)
         else x)
      else if state x = Settling then
        (if min ((now - settleStart x) / SETTLE_DURATION) 1 \<ge> 1
         then x\<lparr>state := Idle, color := BASE_COLOR, origSymbol := None\<rparr>
         else x\<lparr>color := lerpColor HOVER_COLOR BASE_COLOR
                   (easeOutCubic (min ((now - settleStart x) / SETTLE_DURATION) 1))\<rparr>)
      else x)"

text \<open>
  The cell's key is pushed on \<open>toRemove\<close> by \<open>processKey\<close>.
\<close>

definition cell_gone :: "real \<Rightarrow> cell \<Rightarrow> bool" where
  "cell_gone now x =
     (state x = Idle \<or> state x = Settling \<and> min ((now - settleStart x) / SETTLE_DURATION) 1 \<ge> 1)"

text \<open>
  The effect of \<open>processKey\<close> on a well-formed grid.
\<close>

definition processKey_pure :: "real \<Rightarrow> bool \<Rightarrow> nat \<Rightarrow> engine \<times> nat list \<Rightarrow> engine \<times> nat list" where
  "processKey_pure now tk k st =
     (case st of (s, rm) \<Rightarrow>
        if stale s k then (s, rm @ [k])
        else
          let x = grid s ! key_row k ! key_col k in
          (s\<lparr>rpos := (if state x = Scramble \<and> tk then Suc (rpos s) else rpos s),
             grid := grid_set (grid s) (key_row k) (key_col k)
                       (cell_next now tk (fst (randSymbol s)) x)\<rparr>,
           if cell_gone now x then rm @ [k] else rm))"

text \<open>
  The effect of \<open>animate\<close> on a well-formed grid.
\<close>

definition animate_pure :: "real \<Rightarrow> engine \<Rightarrow> engine" where
  "animate_pure now s =
     (let tk = (now - lastFrame s \<ge> FRAME_INTERVAL);
          s0 = (if tk then s\<lparr>lastFrame := now\<rparr> else s);
          st = fold (processKey_pure now tk) (dirtySet s0) (s0, [])
      in (fst st)\<lparr>dirtySet := fold set_delete (snd st) (dirtySet (fst st))\<rparr>)"

text \<open>
  The glyph \<open>randSymbol\<close> returns for the random draw \<open>u\<close>.
\<close>

definition glyph_of :: "real \<Rightarrow> char option" where
  "glyph_of u = js_index SYMBOLS \<lfloor>u * real (length SYMBOLS)\<rfloor>"

text \<open>
  The module-level variables as declared, before the first \<open>buildGrid\<close>; \<open>f\<close> is the sequence of random draws.
\<close>

definition initial :: "(nat \<Rightarrow> real) \<Rightarrow> engine" where
  "initial f = \<lparr>cols = 0, rows = 0, grid = [], dirtySet = [], mouseCol = - 1, mouseRow = - 1,
                lastFrame = 0, rnd = f, rpos = 0\<rparr>"

text \<open>
  The number of cells along an axis of the given pixel length.
\<close>

definition grid_cols :: "nat \<Rightarrow> nat" where
  "grid_cols clientWidth = nat \<lceil>real clientWidth / CELL_SIZE\<rceil> + 1"

text \<open>
  The states of the engine: the first \<open>buildGrid\<close>, then pointer moves, pointer leaves, rebuilds after a resize, and frames, in any order.
\<close>

inductive reachable :: "engine \<Rightarrow> bool" where
  start: "reachable (buildGrid w h (initial f))"
| move: "reachable s \<Longrightarrow> onMouseMove mx my s = Inr s' \<Longrightarrow> reachable s'"
| leave: "reachable s \<Longrightarrow> reachable (onMouseLeave s)"
| resize: "reachable s \<Longrightarrow> reachable (buildGrid w h s)"
| frame: "reachable s \<Longrightarrow> animate now s = Inr s' \<Longrightarrow> reachable s'"

text \<open>
  Every cell that is not idle has its key in the dirty set.
\<close>

definition covered :: "engine \<Rightarrow> bool" where
  "covered s =
     (\<forall>r<rows s. \<forall>c<cols s. state (grid s ! r ! c) \<noteq> Idle \<longrightarrow> key r c \<in> set (dirtySet s))"

text \<open>
  Every cell in a column below 10000 that is not idle has its key in the dirty set.
\<close>

definition low_covered :: "engine \<Rightarrow> bool" where
  "low_covered s =
     (\<forall>r<rows s. \<forall>c<cols s. c < 10000 \<longrightarrow> state (grid s ! r ! c) \<noteq> Idle \<longrightarrow>
        key r c \<in> set (dirtySet s))"

text \<open>
  No cell in a column from 10000 on is settling.
\<close>

definition high_quiet :: "engine \<Rightarrow> bool" where
  "high_quiet s =
     (\<forall>r<rows s. \<forall>c<cols s. 10000 \<le> c \<longrightarrow> state (grid s ! r ! c) \<noteq> Settling)"

text \<open>
  The 3 by 3 grid of a canvas of 44 by 44 pixels right after start-up, every random draw
  being one half.
\<close>

definition demo_start :: engine where
  "demo_start = buildGrid 44 44 (initial (\<lambda>n. 1 / 2))"

text \<open>
  That grid after a pointer move to the pixel (30, 30), which lies in the cell of row 1 and
  column 1.
\<close>

definition demo_moved :: engine where
  "demo_moved = fold visit_pure offsets (demo_start\<lparr>mouseCol := 1, mouseRow := 1\<rparr>)"

text \<open>
  The grid of a canvas of 219979 by 22 pixels: two rows and 10001 columns.
\<close>

definition wide_start :: engine where
  "wide_start = buildGrid 219979 22 (initial (\<lambda>n. 0))"

text \<open>
  The wide grid after a pointer move to the pixel (219978, 5), which lies in row 0 and
  column 9999.
\<close>

definition wide_moved :: engine where
  "wide_moved = fold visit_pure offsets (wide_start\<lparr>mouseCol := 9999, mouseRow := 0\<rparr>)"

text \<open>
  The wide grid after the pointer move and one frame.
\<close>

definition wide_ticked :: engine where
  "wide_ticked = animate_pure 60 wide_moved"

text \<open>
  The wide grid after the pointer move and six frames, 100 milliseconds apart, each of them
  a scramble tick.
\<close>

definition wide_run :: engine where
  "wide_run = fold animate_pure [100, 200, 300, 400, 500, 600] wide_moved"

text \<open>
  A 10 by 10 grid right after start-up.
\<close>

definition ten_start :: engine where
  "ten_start = buildGrid 198 198 (initial (\<lambda>n. 1 / 2))"

text \<open>
  The number of frames of a sequence that are scramble ticks, \<open>lf\<close> being the time of the last scramble tick before it.
\<close>

fun scramble_ticks :: "real \<Rightarrow> real list \<Rightarrow> nat" where
  "scramble_ticks lf [] = 0"
| "scramble_ticks lf (t # ts) =
     (if t - lf \<ge> FRAME_INTERVAL then Suc (scramble_ticks t ts) else scramble_ticks lf ts)"

text \<open>
  The time of the last scramble tick after a sequence of frames.
\<close>

fun last_tick :: "real \<Rightarrow> real list \<Rightarrow> real" where
  "last_tick lf [] = lf"
| "last_tick lf (t # ts) = (if t - lf \<ge> FRAME_INTERVAL then last_tick t ts else last_tick lf ts)"

text \<open>
  The cell \<open>(r, c)\<close> of a well-formed grid is visited by the next tick through its key.
\<close>

definition tracked :: "engine \<Rightarrow> nat \<Rightarrow> nat \<Rightarrow> bool" where
  "tracked s r c =
     (wf_grid s \<and> distinct (dirtySet s) \<and> r < rows s \<and> c < cols s \<and> c < 10000 \<and>
      key r c \<in> set (dirtySet s))"

text \<open>
  Channel-wise order on colours; base tone is above hover tone in every channel.
\<close>

definition rgb_le :: "int \<times> int \<times> int \<Rightarrow> int \<times> int \<times> int \<Rightarrow> bool" where
  "rgb_le p q = (fst p \<le> fst q \<and> fst (snd p) \<le> fst (snd q) \<and> snd (snd p) \<le> snd (snd q))"

text \<open>
  The 3 by 3 grid after the pointer move to the pixel (30, 30) and seven frames, 100
  milliseconds apart, each of them a scramble tick: the countdown of 7 of the armed cells has
  run out at time 700.
\<close>

definition settle_demo :: engine where
  "settle_demo = fold animate_pure [100, 200, 300, 400, 500, 600, 700] demo_moved"

section \<open>Properties\<close>

subsection \<open>Pointer moves on a well-formed grid\<close>

lemma wf_grid_row: "wf_grid s \<Longrightarrow> r < rows s \<Longrightarrow> length (grid s ! r) = cols s"
  by (simp add: wf_grid_def list_all_length)

lemma grid_get_wf:
  "wf_grid s \<Longrightarrow> r < rows s \<Longrightarrow> c < cols s \<Longrightarrow> grid_get (grid s) r c = Inr (grid s ! r ! c)"
  by (simp add: grid_get_def wf_grid_def list_all_length)

lemma length_grid_set [simp]: "length (grid_set g r c x) = length g"
  by (simp add: grid_set_def)

lemma length_grid_set_row [simp]: "length (grid_set g r c x ! r') = length (g ! r')"
  by (cases "r < length g"; cases "r' = r") (simp_all add: grid_set_def not_less list_update_beyond)

lemma nth_grid_set:
  "r' < length g \<Longrightarrow> c' < length (g ! r') \<Longrightarrow>
   grid_set g r c x ! r' ! c' = (if r' = r \<and> c' = c then x else g ! r' ! c')"
  by (cases "r' = r"; cases "c' = c") (simp_all add: grid_set_def)

lemma wf_grid_set:
  "wf_grid s \<Longrightarrow> grid s' = grid_set (grid s) r c x \<Longrightarrow> rows s' = rows s \<Longrightarrow> cols s' = cols s \<Longrightarrow>
   wf_grid s'"
  by (simp add: wf_grid_def list_all_length)

lemma activate_wf:
  assumes "wf_grid s"
  shows "activate rr cc s =
     Inr (if 0 \<le> rr \<and> rr < int (rows s) \<and> 0 \<le> cc \<and> cc < int (cols s) \<and>
             state (grid s ! nat rr ! nat cc) = Idle
          then s\<lparr>rpos := Suc (rpos s),
                 grid := grid_set (grid s) (nat rr) (nat cc)
                           (armed (rnd s (rpos s)) (grid s ! nat rr ! nat cc)),
                 dirtySet := set_add (key (nat rr) (nat cc)) (dirtySet s)\<rparr>
          else s)"
proof (cases "0 \<le> rr \<and> rr < int (rows s) \<and> 0 \<le> cc \<and> cc < int (cols s)")
  case True
  then have "nat rr < rows s" "nat cc < cols s" by auto
  then have "grid_get (grid s) (nat rr) (nat cc) = Inr (grid s ! nat rr ! nat cc)"
    using assms by (rule grid_get_wf[rotated])
  then show ?thesis using True
    by (simp add: activate_def Math_random_def armed_def)
next
  case False
  then show ?thesis by (auto simp add: activate_def)
qed

lemma visit_wf: "wf_grid s \<Longrightarrow> visit off s = Inr (visit_pure off s)"
  by (cases off) (simp add: visit_def visit_pure_def activate_wf Let_def)

lemma visit_pure_frame [simp]:
  "rows (visit_pure off s) = rows s" "cols (visit_pure off s) = cols s"
  "mouseRow (visit_pure off s) = mouseRow s" "mouseCol (visit_pure off s) = mouseCol s"
  "lastFrame (visit_pure off s) = lastFrame s" "rnd (visit_pure off s) = rnd s"
  by (cases off; simp add: visit_pure_def Let_def)+

lemma visit_pure_rpos: "rpos s \<le> rpos (visit_pure off s)"
  by (cases off) (simp add: visit_pure_def Let_def)

lemma visit_pure_wf: "wf_grid s \<Longrightarrow> wf_grid (visit_pure off s)"
  by (cases off) (auto simp add: visit_pure_def Let_def intro: wf_grid_set)

lemma fold_visit_frame [simp]:
  "rows (fold visit_pure offs s) = rows s" "cols (fold visit_pure offs s) = cols s"
  "mouseRow (fold visit_pure offs s) = mouseRow s" "mouseCol (fold visit_pure offs s) = mouseCol s"
  "lastFrame (fold visit_pure offs s) = lastFrame s" "rnd (fold visit_pure offs s) = rnd s"
  by (induction offs arbitrary: s; simp)+

lemma fold_visit_rpos: "rpos s \<le> rpos (fold visit_pure offs s)"
proof (induction offs arbitrary: s)
  case Nil
  show ?case by simp
next
  case (Cons off offs)
  have "rpos s \<le> rpos (visit_pure off s)" by (rule visit_pure_rpos)
  also have "\<dots> \<le> rpos (fold visit_pure offs (visit_pure off s))" by (rule Cons.IH)
  finally show ?case by simp
qed

lemma fold_visit_wf: "wf_grid s \<Longrightarrow> wf_grid (fold visit_pure offs s)"
  by (induction offs arbitrary: s) (simp_all add: visit_pure_wf)

lemma fold_err_visit: "wf_grid s \<Longrightarrow> fold_err visit offs s = Inr (fold visit_pure offs s)"
  by (induction offs arbitrary: s) (simp_all add: visit_wf visit_pure_wf)

lemma visit_pure_cell:
  assumes "wf_grid s" "r < rows s" "c < cols s"
  shows "grid (visit_pure off s) ! r ! c =
           (if at_off off s r c \<and> state (grid s ! r ! c) = Idle
            then armed (rnd s (rpos s)) (grid s ! r ! c) else grid s ! r ! c)"
proof -
  obtain dr dc where off: "off = (dr, dc)" by (cases off)
  have len: "r < length (grid s)" "c < length (grid s ! r)"
    using assms by (simp_all add: wf_grid_def list_all_length)
  have eq: "at_off off s r c \<longleftrightarrow> mouseRow s + dr = int r \<and> mouseCol s + dc = int c"
    by (simp add: at_off_def off)
  show ?thesis
  proof (cases "mouseRow s + dr = int r \<and> mouseCol s + dc = int c")
    case True
    then show ?thesis using assms len eq
      by (simp add: visit_pure_def off Let_def nth_grid_set)
  next
    case False
    then have "\<not> (nat (mouseRow s + dr) = r \<and> nat (mouseCol s + dc) = c) \<or>
               \<not> (0 \<le> mouseRow s + dr \<and> 0 \<le> mouseCol s + dc)" by auto
    then show ?thesis using False len eq
      by (auto simp add: visit_pure_def off Let_def nth_grid_set)
  qed
qed

lemma in_block_Cons: "in_block (off # offs) s r c \<longleftrightarrow> at_off off s r c \<or> in_block offs s r c"
  by (cases off) (auto simp add: in_block_def at_off_def)

lemma at_off_visit [simp]: "at_off off' (visit_pure off s) r c = at_off off' s r c"
  by (simp add: at_off_def)

lemma in_block_visit [simp]: "in_block offs (visit_pure off s) r c = in_block offs s r c"
  by (simp add: in_block_def)

lemma armed_state [simp]: "state (armed u x) = Scramble"
  by (simp add: armed_def)

lemma fold_visit_other:
  assumes "wf_grid s" "r < rows s" "c < cols s"
    and "\<not> (in_block offs s r c \<and> state (grid s ! r ! c) = Idle)"
  shows "grid (fold visit_pure offs s) ! r ! c = grid s ! r ! c"
  using assms
proof (induction offs arbitrary: s)
  case Nil
  then show ?case by simp
next
  case (Cons off offs)
  let ?s1 = "visit_pure off s"
  have wf1: "wf_grid ?s1" using Cons.prems(1) by (rule visit_pure_wf)
  have c1: "grid ?s1 ! r ! c = grid s ! r ! c"
    using Cons.prems by (auto simp add: visit_pure_cell in_block_Cons)
  have "grid (fold visit_pure offs ?s1) ! r ! c = grid ?s1 ! r ! c"
    using Cons.prems c1 by (intro Cons.IH [OF wf1]) (auto simp add: in_block_Cons)
  then show ?case using c1 by simp
qed

lemma fold_visit_armed:
  assumes "wf_grid s" "r < rows s" "c < cols s"
    and "in_block offs s r c" "state (grid s ! r ! c) = Idle"
  shows "\<exists>n\<ge>rpos s. grid (fold visit_pure offs s) ! r ! c = armed (rnd s n) (grid s ! r ! c)"
  using assms
proof (induction offs arbitrary: s)
  case Nil
  then show ?case by (simp add: in_block_def)
next
  case (Cons off offs)
  let ?s1 = "visit_pure off s"
  have wf1: "wf_grid ?s1" using Cons.prems(1) by (rule visit_pure_wf)
  have rws: "r < rows ?s1" "c < cols ?s1" using Cons.prems by simp_all
  have mono: "rpos s \<le> rpos ?s1" by (rule visit_pure_rpos)
  show ?case
  proof (cases "at_off off s r c")
    case True
    then have c1: "grid ?s1 ! r ! c = armed (rnd s (rpos s)) (grid s ! r ! c)"
      using Cons.prems by (simp add: visit_pure_cell)
    then have "grid (fold visit_pure offs ?s1) ! r ! c = grid ?s1 ! r ! c"
      by (intro fold_visit_other [OF wf1 rws]) simp
    then show ?thesis using c1 by auto
  next
    case False
    then have c1: "grid ?s1 ! r ! c = grid s ! r ! c"
      using Cons.prems by (simp add: visit_pure_cell)
    have "in_block offs ?s1 r c" using False Cons.prems by (simp add: in_block_Cons)
    moreover have "state (grid ?s1 ! r ! c) = Idle" using c1 Cons.prems by simp
    ultimately obtain n where "n \<ge> rpos ?s1"
      "grid (fold visit_pure offs ?s1) ! r ! c = armed (rnd ?s1 n) (grid ?s1 ! r ! c)"
      using Cons.IH [OF wf1 rws] by blast
    then show ?thesis using c1 mono by (auto intro!: exI[of _ n])
  qed
qed

lemma set_add_set [simp]: "set (set_add k ks) = insert k (set ks)"
  by (auto simp add: set_add_def)

lemma set_add_distinct [simp]: "distinct (set_add k ks) = distinct ks"
  by (auto simp add: set_add_def)

lemma visit_pure_dirty_mono: "set (dirtySet s) \<subseteq> set (dirtySet (visit_pure off s))"
  by (cases off) (auto simp add: visit_pure_def Let_def)

lemma visit_pure_distinct: "distinct (dirtySet s) \<Longrightarrow> distinct (dirtySet (visit_pure off s))"
  by (cases off) (auto simp add: visit_pure_def Let_def)

lemma visit_pure_dirty_hit:
  "r < rows s \<Longrightarrow> c < cols s \<Longrightarrow> at_off off s r c \<Longrightarrow> state (grid s ! r ! c) = Idle \<Longrightarrow>
   key r c \<in> set (dirtySet (visit_pure off s))"
  by (cases off) (auto simp add: visit_pure_def Let_def at_off_def)

lemma fold_visit_dirty_mono: "set (dirtySet s) \<subseteq> set (dirtySet (fold visit_pure offs s))"
proof (induction offs arbitrary: s)
  case Nil
  show ?case by simp
next
  case (Cons off offs)
  show ?case using visit_pure_dirty_mono [of s off] Cons.IH [of "visit_pure off s"] by auto
qed

lemma fold_visit_distinct:
  "distinct (dirtySet s) \<Longrightarrow> distinct (dirtySet (fold visit_pure offs s))"
  by (induction offs arbitrary: s) (simp_all add: visit_pure_distinct)

lemma fold_visit_dirty_hit:
  assumes "wf_grid s" "r < rows s" "c < cols s"
    and "in_block offs s r c" "state (grid s ! r ! c) = Idle"
  shows "key r c \<in> set (dirtySet (fold visit_pure offs s))"
  using assms
proof (induction offs arbitrary: s)
  case Nil
  then show ?case by (simp add: in_block_def)
next
  case (Cons off offs)
  let ?s1 = "visit_pure off s"
  have wf1: "wf_grid ?s1" using Cons.prems(1) by (rule visit_pure_wf)
  have rws: "r < rows ?s1" "c < cols ?s1" using Cons.prems by simp_all
  show ?case
  proof (cases "at_off off s r c")
    case True
    then have "key r c \<in> set (dirtySet ?s1)"
      using Cons.prems by (intro visit_pure_dirty_hit)
    then show ?thesis using fold_visit_dirty_mono [of ?s1 offs] by auto
  next
    case False
    then have c1: "grid ?s1 ! r ! c = grid s ! r ! c"
      using Cons.prems by (simp add: visit_pure_cell)
    have "in_block offs ?s1 r c" using False Cons.prems by (simp add: in_block_Cons)
    moreover have "state (grid ?s1 ! r ! c) = Idle" using c1 Cons.prems by simp
    ultimately show ?thesis using Cons.IH [OF wf1 rws] by simp
  qed
qed

lemma in_block_offsets:
  "in_block offsets s r c \<longleftrightarrow>
     \<bar>int r - mouseRow s\<bar> \<le> 1 \<and> \<bar>int c - mouseCol s\<bar> \<le> 1"
proof -
  have "set offsets = {(dr, dc). dr \<in> {-1, 0, 1} \<and> dc \<in> {-1, 0, 1}}"
    by (simp add: offsets_def) blast
  moreover have "\<And>x::int. x \<in> {-1, 0, 1} \<longleftrightarrow> \<bar>x\<bar> \<le> 1" by auto
  ultimately show ?thesis by (simp add: in_block_def)
qed

lemma onMouseMove_wf:
  assumes "wf_grid s"
  shows "onMouseMove mx my s =
     Inr (if \<lfloor>mx / CELL_SIZE\<rfloor> = mouseCol s \<and> \<lfloor>my / CELL_SIZE\<rfloor> = mouseRow s then s
          else fold visit_pure offsets
                 (s\<lparr>mouseCol := \<lfloor>mx / CELL_SIZE\<rfloor>, mouseRow := \<lfloor>my / CELL_SIZE\<rfloor>\<rparr>))"
proof -
  have "wf_grid (s\<lparr>mouseCol := \<lfloor>mx / CELL_SIZE\<rfloor>, mouseRow := \<lfloor>my / CELL_SIZE\<rfloor>\<rparr>)"
    using assms by (simp add: wf_grid_def)
  then show ?thesis by (simp add: onMouseMove_def Let_def fold_err_visit)
qed

subsection \<open>Colour strings\<close>

lemma ToInt32_id: "- (2 ^ 31) \<le> n \<Longrightarrow> n < 2 ^ 31 \<Longrightarrow> ToInt32 n = n"
  by (simp add: ToInt32_def signed_take_bit_int_eq_self)

lemma or_low:
  fixes a b :: int
  assumes "0 \<le> b" "b < 2 ^ n"
  shows "push_bit n a OR b = push_bit n a + b"
proof -
  have "take_bit n b = b" using assms by (simp add: take_bit_int_eq_self)
  then have "push_bit n a OR b = concat_bit n b a"
    by (simp add: concat_bit_def or.commute)
  also have "\<dots> = take_bit n b + push_bit n a" by (rule concat_bit_eq)
  finally show ?thesis using \<open>take_bit n b = b\<close> by simp
qed

lemma and_255:
  fixes x :: int
  shows "x AND 255 = x mod 256"
proof -
  have "x AND 255 = take_bit 8 x" by (simp add: take_bit_eq_mask mask_eq_exp_minus_1)
  then show ?thesis by (simp add: take_bit_eq_mod)
qed

lemma pack_rgb:
  fixes r g b :: int
  assumes "0 \<le> r" "r < 256" "0 \<le> g" "g < 256" "0 \<le> b" "b < 256"
  shows "js_or (js_or (js_or (js_shl 1 24) (js_shl r 16)) (js_shl g 8)) b =
           16777216 + r * 65536 + g * 256 + b"
proof -
  have s1: "js_shl 1 24 = push_bit 16 (push_bit 8 1)"
    by (simp add: js_shl_def ToInt32_def)
  have s2: "js_shl r 16 = push_bit 16 r"
    using assms by (simp add: js_shl_def ToInt32_id push_bit_eq_mult)
  have s3: "js_shl g 8 = push_bit 8 g"
    using assms by (simp add: js_shl_def ToInt32_id push_bit_eq_mult)
  have o1: "push_bit 16 (push_bit 8 1) OR push_bit 16 r = push_bit 16 (256 + r)"
  proof -
    have "push_bit 8 1 OR r = push_bit 8 1 + r" using assms by (intro or_low) simp_all
    then have "push_bit 16 (push_bit 8 1 OR r) = push_bit 16 (256 + r)" by simp
    then show ?thesis by (simp only: push_bit_or)
  qed
  have o2: "push_bit 16 (256 + r) OR push_bit 8 g = push_bit 8 ((256 + r) * 256 + g)"
  proof -
    have "push_bit 8 (256 + r) OR g = push_bit 8 (256 + r) + g" using assms by (intro or_low) simp_all
    then have "push_bit 8 (push_bit 8 (256 + r) OR g) = push_bit 8 ((256 + r) * 256 + g)"
      by (simp add: push_bit_eq_mult)
    moreover have "push_bit 8 (push_bit 8 (256 + r)) = push_bit 16 (256 + r)"
      by (simp add: push_bit_eq_mult)
    ultimately show ?thesis by (simp only: push_bit_or)
  qed
  have o3: "push_bit 8 ((256 + r) * 256 + g) OR b = push_bit 8 ((256 + r) * 256 + g) + b"
    using assms by (intro or_low) simp_all
  have v1: "ToInt32 (push_bit 16 (256 + r)) = push_bit 16 (256 + r)"
    using assms by (intro ToInt32_id) (simp_all add: push_bit_eq_mult)
  have v2: "ToInt32 (push_bit 8 ((256 + r) * 256 + g)) = push_bit 8 ((256 + r) * 256 + g)"
    using assms by (intro ToInt32_id) (simp_all add: push_bit_eq_mult)
  have w1: "ToInt32 (push_bit 16 (push_bit 8 1)) = push_bit 16 (push_bit 8 1)"
    by (simp add: ToInt32_def)
  have w2: "ToInt32 (push_bit 16 r) = push_bit 16 r"
    using assms by (intro ToInt32_id) (simp_all add: push_bit_eq_mult)
  have w3: "ToInt32 (push_bit 8 g) = push_bit 8 g"
    using assms by (intro ToInt32_id) (simp_all add: push_bit_eq_mult)
  have w4: "ToInt32 b = b" using assms by (intro ToInt32_id) simp_all
  have "js_or (js_or (js_or (js_shl 1 24) (js_shl r 16)) (js_shl g 8)) b =
        push_bit 8 ((256 + r) * 256 + g) + b"
    unfolding js_or_def s1 s2 s3 w1 w2 w3 w4 o1 v1 o2 v2 o3 ..
  then show ?thesis by (simp add: push_bit_eq_mult algebra_simps)
qed

lemma hexval_hexdigit: "d < 16 \<Longrightarrow> hexval (hexdigit d) = Some d"
proof -
  assume "d < 16"
  then have "d = 0 \<or> d = 1 \<or> d = 2 \<or> d = 3 \<or> d = 4 \<or> d = 5 \<or> d = 6 \<or> d = 7 \<or>
             d = 8 \<or> d = 9 \<or> d = 10 \<or> d = 11 \<or> d = 12 \<or> d = 13 \<or> d = 14 \<or> d = 15"
    by arith
  then show ?thesis by (elim disjE) (simp_all add: hexval_def hexdigit_def)
qed

lemma toString16_nat_step: "16 \<le> n \<Longrightarrow> toString16_nat n = toString16_nat (n div 16) @ [hexdigit (n mod 16)]"
  by (subst toString16_nat.simps) simp

lemma toString16_nat_digit: "n < 16 \<Longrightarrow> toString16_nat n = [hexdigit n]"
  by (subst toString16_nat.simps) simp

lemma toString16_seven:
  assumes "16777216 \<le> n" "n < 33554432"
  shows "drop 1 (toString16_nat n) =
           [hexdigit (n div 1048576 mod 16), hexdigit (n div 65536 mod 16),
            hexdigit (n div 4096 mod 16), hexdigit (n div 256 mod 16),
            hexdigit (n div 16 mod 16), hexdigit (n mod 16)]"
proof -
  have d: "n div 16 div 16 = n div 256" "n div 256 div 16 = n div 4096"
    "n div 4096 div 16 = n div 65536" "n div 65536 div 16 = n div 1048576"
    "n div 1048576 div 16 = n div 16777216"
    by (simp_all add: div_mult2_eq [symmetric])
  have b: "16 \<le> n" "16 \<le> n div 16" "16 \<le> n div 256" "16 \<le> n div 4096" "16 \<le> n div 65536"
    "16 \<le> n div 1048576" "n div 16777216 < 16"
    using assms by simp_all
  have "toString16_nat n = toString16_nat (n div 16777216) @
           [hexdigit (n div 1048576 mod 16), hexdigit (n div 65536 mod 16),
            hexdigit (n div 4096 mod 16), hexdigit (n div 256 mod 16),
            hexdigit (n div 16 mod 16), hexdigit (n mod 16)]"
    by (simp add: toString16_nat_step [OF b(1)] toString16_nat_step [OF b(2)]
        toString16_nat_step [OF b(3)] toString16_nat_step [OF b(4)] toString16_nat_step [OF b(5)]
        toString16_nat_step [OF b(6)] d)
  then show ?thesis using b(7) by (simp add: toString16_nat_digit)
qed

lemma digits_sum_aux:
  fixes n a b c d e f g h i j k :: nat
  assumes "16777216 \<le> n"
    "16 * a + b = n" "16 * c + d = a" "16 * e + f = c" "16 * g + h = e" "16 * i + j = g"
    "16 * 1 + k = i"
  shows "1048576 * k + 65536 * j + 4096 * h + 256 * f + d * 16 + b = n - 16777216"
  using assms by linarith

lemma digits_sum:
  fixes n :: nat
  assumes "16777216 \<le> n" "n < 33554432"
  shows "1048576 * (n div 1048576 mod 16) + 65536 * (n div 65536 mod 16) +
        4096 * (n div 4096 mod 16) + 256 * (n div 256 mod 16) + n div 16 mod 16 * 16 + n mod 16
        = n - 16777216"
proof -
  have d: "n div 16 div 16 = n div 256" "n div 256 div 16 = n div 4096"
    "n div 4096 div 16 = n div 65536" "n div 65536 div 16 = n div 1048576"
    "n div 1048576 div 16 = n div 16777216"
    by (simp_all add: div_mult2_eq [symmetric])
  have top: "n div 16777216 = 1" using assms by simp
  note c1 = mult_div_mod_eq [of 16 n]
  note c2 = mult_div_mod_eq [of 16 "n div 16", unfolded d]
  note c3 = mult_div_mod_eq [of 16 "n div 256", unfolded d]
  note c4 = mult_div_mod_eq [of 16 "n div 4096", unfolded d]
  note c5 = mult_div_mod_eq [of 16 "n div 65536", unfolded d]
  note c6 = mult_div_mod_eq [of 16 "n div 1048576", unfolded d top]
  show ?thesis by (rule digits_sum_aux [OF assms(1) c1 c2 c3 c4 c5 c6])
qed

lemma rgb_div_mod:
  fixes r g b :: int
  assumes "0 \<le> r" "r < 256" "0 \<le> g" "g < 256" "0 \<le> b" "b < 256"
  shows "(r * 65536 + g * 256 + b) div 65536 = r"
    and "(r * 65536 + g * 256 + b) div 256 = r * 256 + g"
    and "(r * 256 + g) mod 256 = g"
    and "(r * 65536 + g * 256 + b) mod 256 = b"
proof -
  have x: "0 \<le> g * 256 + b" "g * 256 + b < 65536" using assms by auto
  have "(r * 65536 + (g * 256 + b)) div 65536 = r"
    using x by (simp add: div_pos_pos_trivial)
  then show "(r * 65536 + g * 256 + b) div 65536 = r" by (simp add: add.assoc)
  have eq: "r * 65536 + g * 256 + b = b + (r * 256 + g) * 256" by simp
  have "(b + (r * 256 + g) * 256) div 256 = r * 256 + g"
    using assms by (simp add: div_pos_pos_trivial)
  then show "(r * 65536 + g * 256 + b) div 256 = r * 256 + g" by (simp only: eq)
  show "(r * 256 + g) mod 256 = g" using assms by (simp add: mod_pos_pos_trivial)
  have "(b + (r * 256 + g) * 256) mod 256 = b mod 256" by (simp only: mod_mult_self1)
  then show "(r * 65536 + g * 256 + b) mod 256 = b"
    using assms by (simp only: eq mod_pos_pos_trivial)
qed

lemma hexdigit_plain:
  assumes "d < 16"
  shows "\<not> is_white (hexdigit d)" "hexdigit d \<noteq> CHR ''-''" "hexdigit d \<noteq> CHR ''+''"
    "hexdigit d \<noteq> CHR ''x''" "hexdigit d \<noteq> CHR ''X''"
proof -
  have "d = 0 \<or> d = 1 \<or> d = 2 \<or> d = 3 \<or> d = 4 \<or> d = 5 \<or> d = 6 \<or> d = 7 \<or>
        d = 8 \<or> d = 9 \<or> d = 10 \<or> d = 11 \<or> d = 12 \<or> d = 13 \<or> d = 14 \<or> d = 15"
    using assms by arith
  then show "\<not> is_white (hexdigit d)" "hexdigit d \<noteq> CHR ''-''" "hexdigit d \<noteq> CHR ''+''"
    "hexdigit d \<noteq> CHR ''x''" "hexdigit d \<noteq> CHR ''X''"
    by (elim disjE; simp add: is_white_def hexdigit_def)+
qed

lemma parseInt16_digits:
  assumes "d1 < 16" "d2 < 16"
  shows "parseInt16 (hexdigit d1 # hexdigit d2 # cs) =
           Some (int (parse_hex 0 (hexdigit d1 # hexdigit d2 # cs)))"
  using hexdigit_plain [OF assms(1)] hexdigit_plain [OF assms(2)] hexval_hexdigit [OF assms(1)]
  by (simp add: parseInt16_def Let_def del: parse_hex.simps)

lemma hexToRGB_rgbToHex:
  fixes r g b :: int
  assumes "0 \<le> r" "r < 256" "0 \<le> g" "g < 256" "0 \<le> b" "b < 256"
  shows "hexToRGB (rgbToHex r g b) = (r, g, b)"
proof -
  define n where "n = nat (16777216 + r * 65536 + g * 256 + b)"
  have n: "int n = 16777216 + r * 65536 + g * 256 + b" using assms by (simp add: n_def)
  have nb: "16777216 \<le> n" "n < 33554432" using assms n by linarith+
  let ?ds = "[hexdigit (n div 1048576 mod 16), hexdigit (n div 65536 mod 16),
            hexdigit (n div 4096 mod 16), hexdigit (n div 256 mod 16),
            hexdigit (n div 16 mod 16), hexdigit (n mod 16)]"
  have pk: "js_or (js_or (js_or (js_shl 1 24) (js_shl r 16)) (js_shl g 8)) b = int n"
    using assms by (simp only: pack_rgb n)
  have hex: "rgbToHex r g b = CHR ''#'' # ?ds"
    using toString16_seven [OF nb] by (simp add: rgbToHex_def pk toString16_def)
  have "parse_hex 0 ?ds = 1048576 * (n div 1048576 mod 16) + 65536 * (n div 65536 mod 16) +
        4096 * (n div 4096 mod 16) + 256 * (n div 256 mod 16) + n div 16 mod 16 * 16 + n mod 16"
    by (simp add: hexval_hexdigit)
  also have "\<dots> = n - 16777216" using nb by (rule digits_sum)
  finally have ph: "parse_hex 0 ?ds = n - 16777216" .
  have "int (n - 16777216) = r * 65536 + g * 256 + b" using n nb by linarith
  then have p: "parseInt16 ?ds = Some (r * 65536 + g * 256 + b)"
    by (simp add: parseInt16_digits ph del: parse_hex.simps)
  have m: "- (2 ^ 31) \<le> r * 65536 + g * 256 + b" "r * 65536 + g * 256 + b < 2 ^ 31"
    using assms by simp_all
  have t: "ToInt32 (r * 65536 + g * 256 + b) = r * 65536 + g * 256 + b"
    using m by (rule ToInt32_id)
  have t255: "ToInt32 255 = 255" by (simp add: ToInt32_def)
  have r1: "ToInt32 r = r" "ToInt32 (r * 256 + g) = r * 256 + g"
    using assms by (simp_all add: ToInt32_id)
  have e1: "r mod 256 = r" "g mod 256 = g" using assms by (simp_all add: mod_pos_pos_trivial)
  note dm = rgb_div_mod [OF assms]
  have k16: "js_and (js_sar (r * 65536 + g * 256 + b) 16) 255 = r"
    by (simp only: js_and_def js_sar_def t t255 drop_bit_eq_div and_255 r1 e1)
      (simp add: dm e1 r1 and_255)
  have k8: "js_and (js_sar (r * 65536 + g * 256 + b) 8) 255 = g"
    by (simp only: js_and_def js_sar_def t t255 drop_bit_eq_div and_255 r1)
      (simp add: dm r1 and_255 e1)
  have k0: "js_and (r * 65536 + g * 256 + b) 255 = b"
    by (simp only: js_and_def t t255 and_255 dm)
  show ?thesis
    by (simp add: hex hexToRGB_def p k16 k8 k0 del: parse_hex.simps)
qed

subsection \<open>The dirty-set callback on a well-formed grid\<close>

lemma grid_set_same [simp]: "grid_set g r c (g ! r ! c) = g"
  by (simp add: grid_set_def)

lemma cell_gone_iff: "cell_gone now x \<longleftrightarrow> state (cell_next now tk glyph x) = Idle"
  by (cases "state x") (simp_all add: cell_gone_def cell_next_def)

lemma processKey_wf:
  assumes "wf_grid s"
  shows "processKey now tk k (s, rm) = Inr (processKey_pure now tk k (s, rm))"
proof (cases "stale s k")
  case True
  then show ?thesis by (auto simp add: processKey_def processKey_pure_def stale_def Let_def)
next
  case False
  then have b: "key_row k < rows s" "key_col k < cols s" by (auto simp add: stale_def)
  then have g: "grid_get (grid s) (key_row k) (key_col k) = Inr (grid s ! key_row k ! key_col k)"
    using assms by (intro grid_get_wf)
  have ns: "\<not> (rows s \<le> key_row k \<or> cols s \<le> key_col k)" using b by auto
  show ?thesis
  proof (cases "state (grid s ! key_row k ! key_col k)")
    case Idle
    then show ?thesis using False g ns
      by (simp add: processKey_def processKey_pure_def Let_def cell_next_def cell_gone_def)
  next
    case Scramble
    then show ?thesis using False g ns
      by (simp add: processKey_def processKey_pure_def Let_def cell_next_def cell_gone_def
          randSymbol_def Math_random_def)
  next
    case Settling
    then show ?thesis using False g ns
      by (simp add: processKey_def processKey_pure_def Let_def cell_next_def cell_gone_def)
  qed
qed

lemma decode_inj: "key_row k = key_row k' \<Longrightarrow> key_col k = key_col k' \<Longrightarrow> k = k'"
proof -
  assume a: "key_row k = key_row k'" "key_col k = key_col k'"
  have "k = key_row k * 10000 + key_col k" "k' = key_row k' * 10000 + key_col k'"
    by (simp_all add: key_row_def key_col_def)
  then show ?thesis using a by simp
qed

lemma pk_frame [simp]:
  "rows (fst (processKey_pure now tk k st)) = rows (fst st)"
  "cols (fst (processKey_pure now tk k st)) = cols (fst st)"
  "dirtySet (fst (processKey_pure now tk k st)) = dirtySet (fst st)"
  "lastFrame (fst (processKey_pure now tk k st)) = lastFrame (fst st)"
  "mouseRow (fst (processKey_pure now tk k st)) = mouseRow (fst st)"
  "mouseCol (fst (processKey_pure now tk k st)) = mouseCol (fst st)"
  "rnd (fst (processKey_pure now tk k st)) = rnd (fst st)"
  by (cases st; simp add: processKey_pure_def Let_def)+

lemma pk_stale [simp]: "stale (fst (processKey_pure now tk k st)) k' = stale (fst st) k'"
  by (simp add: stale_def)

lemma pk_wf: "wf_grid (fst st) \<Longrightarrow> wf_grid (fst (processKey_pure now tk k st))"
  by (cases st) (auto simp add: processKey_pure_def Let_def intro: wf_grid_set)

lemma pk_cell:
  assumes "wf_grid s" "r < rows s" "c < cols s"
  shows "grid (fst (processKey_pure now tk k (s, rm))) ! r ! c =
           (if key_row k = r \<and> key_col k = c
            then cell_next now tk (fst (randSymbol s)) (grid s ! r ! c) else grid s ! r ! c)"
proof -
  have len: "r < length (grid s)" "c < length (grid s ! r)"
    using assms by (simp_all add: wf_grid_def list_all_length)
  show ?thesis
  proof (cases "stale s k")
    case True
    then show ?thesis using assms by (auto simp add: processKey_pure_def stale_def)
  next
    case False
    then show ?thesis using len by (simp add: processKey_pure_def Let_def nth_grid_set)
  qed
qed

lemma pk_rm:
  "snd (processKey_pure now tk k (s, rm)) =
     (if stale s k \<or> cell_gone now (grid s ! key_row k ! key_col k) then rm @ [k] else rm)"
  by (simp add: processKey_pure_def Let_def)

lemma fold_pk_frame [simp]:
  "rows (fst (fold (processKey_pure now tk) ks st)) = rows (fst st)"
  "cols (fst (fold (processKey_pure now tk) ks st)) = cols (fst st)"
  "dirtySet (fst (fold (processKey_pure now tk) ks st)) = dirtySet (fst st)"
  "lastFrame (fst (fold (processKey_pure now tk) ks st)) = lastFrame (fst st)"
  "mouseRow (fst (fold (processKey_pure now tk) ks st)) = mouseRow (fst st)"
  "mouseCol (fst (fold (processKey_pure now tk) ks st)) = mouseCol (fst st)"
  "rnd (fst (fold (processKey_pure now tk) ks st)) = rnd (fst st)"
  by (induction ks arbitrary: st; simp)+

lemma fold_pk_wf: "wf_grid (fst st) \<Longrightarrow> wf_grid (fst (fold (processKey_pure now tk) ks st))"
  by (induction ks arbitrary: st) (simp_all add: pk_wf)

lemma fold_err_pk:
  "wf_grid (fst st) \<Longrightarrow>
   fold_err (processKey now tk) ks st = Inr (fold (processKey_pure now tk) ks st)"
proof (induction ks arbitrary: st)
  case Nil
  show ?case by simp
next
  case (Cons k ks)
  obtain s rm where st: "st = (s, rm)" by (cases st)
  have "processKey now tk k st = Inr (processKey_pure now tk k st)"
    using Cons.prems by (simp add: st processKey_wf)
  moreover have "wf_grid (fst (processKey_pure now tk k st))"
    using Cons.prems by (rule pk_wf)
  ultimately show ?case using Cons.IH by simp
qed

lemma fold_pk_other:
  assumes "wf_grid s" "r < rows s" "c < cols s"
    and "\<forall>k\<in>set ks. \<not> (key_row k = r \<and> key_col k = c)"
  shows "grid (fst (fold (processKey_pure now tk) ks (s, rm))) ! r ! c = grid s ! r ! c"
  using assms
proof (induction ks arbitrary: s rm)
  case Nil
  show ?case by simp
next
  case (Cons k ks)
  obtain s1 rm1 where p: "processKey_pure now tk k (s, rm) = (s1, rm1)"
    by (cases "processKey_pure now tk k (s, rm)")
  have s1: "s1 = fst (processKey_pure now tk k (s, rm))" by (simp add: p)
  have wf1: "wf_grid s1" using Cons.prems(1) pk_wf [of "(s, rm)"] by (simp add: s1)
  have rc: "r < rows s1" "c < cols s1" using Cons.prems by (simp_all add: s1)
  have c1: "grid s1 ! r ! c = grid s ! r ! c"
    using Cons.prems by (auto simp add: s1 pk_cell)
  have "grid (fst (fold (processKey_pure now tk) ks (s1, rm1))) ! r ! c = grid s1 ! r ! c"
    using Cons.prems(4) by (intro Cons.IH [OF wf1 rc]) simp
  then show ?case using c1 by (simp add: p)
qed

lemma fold_pk_hit:
  assumes "wf_grid s" "distinct ks" "k \<in> set ks" "\<not> stale s k"
  shows "\<exists>g. grid (fst (fold (processKey_pure now tk) ks (s, rm))) ! key_row k ! key_col k =
              cell_next now tk g (grid s ! key_row k ! key_col k)"
  using assms
proof (induction ks arbitrary: s rm)
  case Nil
  then show ?case by simp
next
  case (Cons k' ks)
  obtain s1 rm1 where p: "processKey_pure now tk k' (s, rm) = (s1, rm1)"
    by (cases "processKey_pure now tk k' (s, rm)")
  have s1: "s1 = fst (processKey_pure now tk k' (s, rm))" by (simp add: p)
  have wf1: "wf_grid s1" using Cons.prems(1) pk_wf [of "(s, rm)"] by (simp add: s1)
  have b: "key_row k < rows s" "key_col k < cols s"
    using Cons.prems(4) by (auto simp add: stale_def)
  then have rc: "key_row k < rows s1" "key_col k < cols s1" by (simp_all add: s1)
  have ns1: "\<not> stale s1 k" using Cons.prems(4) by (simp add: s1)
  show ?case
  proof (cases "k' = k")
    case True
    then have "k \<notin> set ks" using Cons.prems(2) by simp
    then have "\<forall>j\<in>set ks. \<not> (key_row j = key_row k \<and> key_col j = key_col k)"
      using decode_inj by blast
    then have "grid (fst (fold (processKey_pure now tk) ks (s1, rm1))) ! key_row k ! key_col k =
               grid s1 ! key_row k ! key_col k"
      by (intro fold_pk_other [OF wf1 rc])
    moreover have "grid s1 ! key_row k ! key_col k =
               cell_next now tk (fst (randSymbol s)) (grid s ! key_row k ! key_col k)"
      using Cons.prems(1) b True by (simp add: s1 pk_cell)
    ultimately show ?thesis by (auto simp add: p)
  next
    case False
    then have "\<not> (key_row k' = key_row k \<and> key_col k' = key_col k)"
      using decode_inj by blast
    then have c1: "grid s1 ! key_row k ! key_col k = grid s ! key_row k ! key_col k"
      using Cons.prems(1) b by (auto simp add: s1 pk_cell)
    have "k \<in> set ks" "distinct ks" using False Cons.prems by auto
    then obtain g where
      "grid (fst (fold (processKey_pure now tk) ks (s1, rm1))) ! key_row k ! key_col k =
         cell_next now tk g (grid s1 ! key_row k ! key_col k)"
      using Cons.IH [OF wf1 _ _ ns1] by blast
    then show ?thesis using c1 by (auto simp add: p)
  qed
qed

lemma fold_pk_rm:
  assumes "wf_grid s" "distinct ks"
  shows "set (snd (fold (processKey_pure now tk) ks (s, rm))) =
           set rm \<union> {k \<in> set ks. stale s k \<or> cell_gone now (grid s ! key_row k ! key_col k)}"
  using assms
proof (induction ks arbitrary: s rm)
  case Nil
  show ?case by simp
next
  case (Cons k' ks)
  obtain s1 rm1 where p: "processKey_pure now tk k' (s, rm) = (s1, rm1)"
    by (cases "processKey_pure now tk k' (s, rm)")
  have s1: "s1 = fst (processKey_pure now tk k' (s, rm))" by (simp add: p)
  have rm1: "rm1 = (if stale s k' \<or> cell_gone now (grid s ! key_row k' ! key_col k')
                    then rm @ [k'] else rm)"
    using pk_rm [of now tk k' s rm] by (simp add: p)
  have wf1: "wf_grid s1" using Cons.prems(1) pk_wf [of "(s, rm)"] by (simp add: s1)
  have same: "grid s1 ! key_row k ! key_col k = grid s ! key_row k ! key_col k"
    if "k \<in> set ks" "\<not> stale s k" for k
  proof -
    have "k \<noteq> k'" using that Cons.prems(2) by auto
    then have "\<not> (key_row k' = key_row k \<and> key_col k' = key_col k)"
      using decode_inj by blast
    moreover have "key_row k < rows s" "key_col k < cols s"
      using that by (auto simp add: stale_def)
    ultimately show ?thesis using Cons.prems(1) by (auto simp add: s1 pk_cell)
  qed
  have st1: "stale s1 k = stale s k" for k by (simp add: s1)
  have "set (snd (fold (processKey_pure now tk) ks (s1, rm1))) =
          set rm1 \<union> {k \<in> set ks. stale s1 k \<or> cell_gone now (grid s1 ! key_row k ! key_col k)}"
    using Cons.prems(2) by (intro Cons.IH [OF wf1]) simp
  also have "{k \<in> set ks. stale s1 k \<or> cell_gone now (grid s1 ! key_row k ! key_col k)} =
             {k \<in> set ks. stale s k \<or> cell_gone now (grid s ! key_row k ! key_col k)}"
    using same st1 by (intro Collect_cong) metis
  finally show ?case by (auto simp add: p rm1)
qed

subsection \<open>Frames on a well-formed grid\<close>

lemma set_fold_delete: "set (fold set_delete rm ks) = set ks - set rm"
  by (induction rm arbitrary: ks) (auto simp add: set_delete_def)

lemma distinct_fold_delete: "distinct ks \<Longrightarrow> distinct (fold set_delete rm ks)"
  by (induction rm arbitrary: ks) (simp_all add: set_delete_def distinct_removeAll)

lemma wf_grid_lastFrame [simp]: "wf_grid (s\<lparr>lastFrame := t\<rparr>) = wf_grid s"
  by (simp add: wf_grid_def)

lemma wf_grid_dirtySet [simp]: "wf_grid (s\<lparr>dirtySet := d\<rparr>) = wf_grid s"
  by (simp add: wf_grid_def)

lemma stale_lastFrame [simp]: "stale (s\<lparr>lastFrame := t\<rparr>) k = stale s k"
  by (simp add: stale_def)

lemma animate_wf: "wf_grid s \<Longrightarrow> animate now s = Inr (animate_pure now s)"
  by (cases "now - lastFrame s \<ge> FRAME_INTERVAL")
    (simp_all add: animate_def animate_pure_def Let_def fold_err_pk case_prod_beta)

lemma animate_pure_frame [simp]:
  "rows (animate_pure now s) = rows s" "cols (animate_pure now s) = cols s"
  "mouseRow (animate_pure now s) = mouseRow s" "mouseCol (animate_pure now s) = mouseCol s"
  "rnd (animate_pure now s) = rnd s"
  by (simp_all add: animate_pure_def Let_def)

lemma animate_pure_lastFrame:
  "lastFrame (animate_pure now s) = (if now - lastFrame s \<ge> FRAME_INTERVAL then now else lastFrame s)"
  by (simp add: animate_pure_def Let_def)

lemma animate_pure_wf: "wf_grid s \<Longrightarrow> wf_grid (animate_pure now s)"
  by (simp add: animate_pure_def Let_def fold_pk_wf)

lemma animate_pure_distinct: "distinct (dirtySet s) \<Longrightarrow> distinct (dirtySet (animate_pure now s))"
  by (simp add: animate_pure_def Let_def distinct_fold_delete)

lemma animate_pure_dirty:
  assumes "wf_grid s" "distinct (dirtySet s)"
  shows "set (dirtySet (animate_pure now s)) =
           {k \<in> set (dirtySet s). \<not> stale s k \<and> \<not> cell_gone now (grid s ! key_row k ! key_col k)}"
proof -
  let ?tk = "now - lastFrame s \<ge> FRAME_INTERVAL"
  let ?s0 = "if ?tk then s\<lparr>lastFrame := now\<rparr> else s"
  have wf0: "wf_grid ?s0" using assms by simp
  have d0: "dirtySet ?s0 = dirtySet s" "grid ?s0 = grid s" by simp_all
  have st0: "stale ?s0 k = stale s k" for k by simp
  have "set (snd (fold (processKey_pure now ?tk) (dirtySet s) (?s0, []))) =
          set [] \<union> {k \<in> set (dirtySet s). stale ?s0 k \<or> cell_gone now (grid ?s0 ! key_row k ! key_col k)}"
    using assms(2) by (intro fold_pk_rm [OF wf0])
  then have "set (snd (fold (processKey_pure now ?tk) (dirtySet s) (?s0, []))) =
          {k \<in> set (dirtySet s). stale s k \<or> cell_gone now (grid s ! key_row k ! key_col k)}"
    unfolding st0 d0 by simp
  then show ?thesis
    by (cases "now - lastFrame s \<ge> FRAME_INTERVAL")
      (auto simp add: animate_pure_def Let_def set_fold_delete)
qed

lemma animate_pure_other:
  assumes "wf_grid s" "r < rows s" "c < cols s"
    and "\<forall>k\<in>set (dirtySet s). \<not> (key_row k = r \<and> key_col k = c)"
  shows "grid (animate_pure now s) ! r ! c = grid s ! r ! c"
proof -
  let ?tk = "now - lastFrame s \<ge> FRAME_INTERVAL"
  let ?s0 = "if ?tk then s\<lparr>lastFrame := now\<rparr> else s"
  have wf0: "wf_grid ?s0" using assms by simp
  have rc: "r < rows ?s0" "c < cols ?s0" using assms by simp_all
  have "grid (fst (fold (processKey_pure now ?tk) (dirtySet s) (?s0, []))) ! r ! c = grid ?s0 ! r ! c"
    using assms(4) by (intro fold_pk_other [OF wf0 rc])
  then show ?thesis
    by (cases "now - lastFrame s \<ge> FRAME_INTERVAL") (simp_all add: animate_pure_def Let_def)
qed

lemma animate_pure_hit:
  assumes "wf_grid s" "distinct (dirtySet s)" "k \<in> set (dirtySet s)" "\<not> stale s k"
  shows "\<exists>g. grid (animate_pure now s) ! key_row k ! key_col k =
              cell_next now (now - lastFrame s \<ge> FRAME_INTERVAL) g (grid s ! key_row k ! key_col k)"
proof -
  let ?tk = "now - lastFrame s \<ge> FRAME_INTERVAL"
  let ?s0 = "if ?tk then s\<lparr>lastFrame := now\<rparr> else s"
  have wf0: "wf_grid ?s0" using assms by simp
  have ns: "\<not> stale ?s0 k" using assms by simp
  obtain g where
    "grid (fst (fold (processKey_pure now ?tk) (dirtySet s) (?s0, []))) ! key_row k ! key_col k =
       cell_next now ?tk g (grid ?s0 ! key_row k ! key_col k)"
    using fold_pk_hit [OF wf0 assms(2) assms(3) ns] by blast
  then show ?thesis
    by (cases "now - lastFrame s \<ge> FRAME_INTERVAL") (auto simp add: animate_pure_def Let_def)
qed

subsection \<open>The rebuilt grid\<close>

lemma randSymbol_eq: "randSymbol s = (glyph_of (rnd s (rpos s)), s\<lparr>rpos := Suc (rpos s)\<rparr>)"
  by (simp add: randSymbol_def Math_random_def glyph_of_def)

lemma build_row_eq:
  "build_row n row s =
     (row @ map (\<lambda>i. new_cell (glyph_of (rnd s (rpos s + i)))) [0..<n], s\<lparr>rpos := rpos s + n\<rparr>)"
proof (induction n arbitrary: row s)
  case 0
  show ?case by simp
next
  case (Suc n)
  show ?case
    by (simp add: randSymbol_eq Suc.IH map_upt_Suc del: upt_Suc)
qed

lemma build_rows_eq:
  "build_rows m n g s =
     (g @ map (\<lambda>j. map (\<lambda>i. new_cell (glyph_of (rnd s (rpos s + j * n + i)))) [0..<n]) [0..<m],
      s\<lparr>rpos := rpos s + m * n\<rparr>)"
proof (induction m arbitrary: g s)
  case 0
  show ?case by simp
next
  case (Suc m)
  show ?case
    by (simp add: build_row_eq Suc.IH map_upt_Suc add.assoc add.left_commute del: upt_Suc)
qed

lemma buildGrid_frame [simp]:
  "cols (buildGrid w h s) = grid_cols w" "rows (buildGrid w h s) = grid_cols h"
  "dirtySet (buildGrid w h s) = dirtySet s" "mouseRow (buildGrid w h s) = mouseRow s"
  "mouseCol (buildGrid w h s) = mouseCol s" "lastFrame (buildGrid w h s) = lastFrame s"
  "rnd (buildGrid w h s) = rnd s"
  by (simp_all add: buildGrid_def Let_def build_rows_eq grid_cols_def)

lemma buildGrid_grid:
  "grid (buildGrid w h s) =
     map (\<lambda>j. map (\<lambda>i. new_cell (glyph_of (rnd s (rpos s + j * grid_cols w + i))))
                 [0..<grid_cols w]) [0..<grid_cols h]"
  by (simp add: buildGrid_def Let_def build_rows_eq grid_cols_def)

lemma buildGrid_wf: "wf_grid (buildGrid w h s)"
  by (simp add: wf_grid_def buildGrid_grid list_all_length)

lemma buildGrid_cell:
  "r < grid_cols h \<Longrightarrow> c < grid_cols w \<Longrightarrow>
   grid (buildGrid w h s) ! r ! c = new_cell (glyph_of (rnd s (rpos s + r * grid_cols w + c)))"
  by (simp add: buildGrid_grid)

subsection \<open>One frame, cell by cell\<close>

lemma key_decode [simp]: "c < 10000 \<Longrightarrow> key_row (key r c) = r" "c < 10000 \<Longrightarrow> key_col (key r c) = c"
  by (simp_all add: key_def key_row_def key_col_def)

lemma decode_key: "key_row k = r \<Longrightarrow> key_col k = c \<Longrightarrow> k = key r c"
  by (auto simp add: key_def key_row_def key_col_def)

lemma tick_cell_hit:
  assumes "wf_grid s" "distinct (dirtySet s)" "r < rows s" "c < cols s" "c < 10000"
    and "key r c \<in> set (dirtySet s)"
  shows "\<exists>g. grid (animate_pure now s) ! r ! c =
              cell_next now (now - lastFrame s \<ge> FRAME_INTERVAL) g (grid s ! r ! c)"
proof -
  have "\<not> stale s (key r c)" using assms by (simp add: stale_def)
  from animate_pure_hit [OF assms(1) assms(2) assms(6) this, of now] show ?thesis
    using assms(5) by simp
qed

lemma tick_cell_miss:
  assumes "wf_grid s" "r < rows s" "c < cols s" "key r c \<notin> set (dirtySet s)"
  shows "grid (animate_pure now s) ! r ! c = grid s ! r ! c"
proof -
  have "\<forall>k\<in>set (dirtySet s). \<not> (key_row k = r \<and> key_col k = c)"
  proof (intro ballI notI)
    fix k
    assume k: "k \<in> set (dirtySet s)" and d: "key_row k = r \<and> key_col k = c"
    from d have "k = key r c" by (simp add: decode_key)
    with k assms(4) show False by simp
  qed
  then show ?thesis by (rule animate_pure_other [OF assms(1) assms(2) assms(3)])
qed

lemma tick_cell_dirty:
  assumes "wf_grid s" "distinct (dirtySet s)" "r < rows s" "c < cols s" "c < 10000"
  shows "key r c \<in> set (dirtySet (animate_pure now s)) \<longleftrightarrow>
           key r c \<in> set (dirtySet s) \<and> \<not> cell_gone now (grid s ! r ! c)"
  using assms by (simp add: animate_pure_dirty stale_def)

lemma new_cell_state [simp]: "state (new_cell g) = Idle"
  by (simp add: new_cell_def)

lemma buildGrid_covered: "covered (buildGrid w h s)"
  by (simp add: covered_def buildGrid_cell)

lemma onMouseLeave_frame [simp]:
  "rows (onMouseLeave s) = rows s" "cols (onMouseLeave s) = cols s"
  "grid (onMouseLeave s) = grid s" "dirtySet (onMouseLeave s) = dirtySet s"
  by (simp_all add: onMouseLeave_def)

lemma wf_grid_mouse [simp]: "wf_grid (s\<lparr>mouseCol := a, mouseRow := b\<rparr>) = wf_grid s"
  by (simp add: wf_grid_def)

lemma move_covered:
  assumes "wf_grid s" "covered s"
  shows "covered (fold visit_pure offs s)"
  unfolding covered_def
proof (intro allI impI)
  fix r c
  assume rc: "r < rows (fold visit_pure offs s)" "c < cols (fold visit_pure offs s)"
    and ni: "state (grid (fold visit_pure offs s) ! r ! c) \<noteq> Idle"
  have rc': "r < rows s" "c < cols s" using rc by simp_all
  show "key r c \<in> set (dirtySet (fold visit_pure offs s))"
  proof (cases "in_block offs s r c \<and> state (grid s ! r ! c) = Idle")
    case True
    then show ?thesis using fold_visit_dirty_hit [OF assms(1) rc'] by blast
  next
    case False
    then have "grid (fold visit_pure offs s) ! r ! c = grid s ! r ! c"
      by (rule fold_visit_other [OF assms(1) rc'])
    then have "state (grid s ! r ! c) \<noteq> Idle" using ni by simp
    then have "key r c \<in> set (dirtySet s)" using assms(2) rc' by (simp add: covered_def)
    then show ?thesis using fold_visit_dirty_mono [of s offs] by auto
  qed
qed

lemma tick_covered:
  assumes "wf_grid s" "distinct (dirtySet s)" "covered s" "cols s \<le> 10000"
  shows "covered (animate_pure now s)"
  unfolding covered_def
proof (intro allI impI)
  fix r c
  assume rc: "r < rows (animate_pure now s)" "c < cols (animate_pure now s)"
    and ni: "state (grid (animate_pure now s) ! r ! c) \<noteq> Idle"
  have rc': "r < rows s" "c < cols s" "c < 10000" using rc assms(4) by simp_all
  show "key r c \<in> set (dirtySet (animate_pure now s))"
  proof (cases "key r c \<in> set (dirtySet s)")
    case True
    then obtain g where "grid (animate_pure now s) ! r ! c =
        cell_next now (now - lastFrame s \<ge> FRAME_INTERVAL) g (grid s ! r ! c)"
      using tick_cell_hit [OF assms(1) assms(2) rc'] by blast
    then have "\<not> cell_gone now (grid s ! r ! c)" using ni by (simp add: cell_gone_iff [symmetric])
    then show ?thesis using True assms rc' by (simp add: tick_cell_dirty)
  next
    case False
    then have "grid (animate_pure now s) ! r ! c = grid s ! r ! c"
      by (rule tick_cell_miss [OF assms(1) rc'(1) rc'(2)])
    then have "state (grid s ! r ! c) \<noteq> Idle" using ni by simp
    then have "key r c \<in> set (dirtySet s)" using assms(3) rc' by (simp add: covered_def)
    then show ?thesis using False by simp
  qed
qed

lemma covered_mouse [simp]: "covered (s\<lparr>mouseCol := a, mouseRow := b\<rparr>) = covered s"
  by (simp add: covered_def)

lemma covered_leave [simp]: "covered (onMouseLeave s) = covered s"
  by (simp add: covered_def)

lemma wf_grid_leave [simp]: "wf_grid (onMouseLeave s) = wf_grid s"
  by (simp add: wf_grid_def)

subsection \<open>Invariants of the reachable states\<close>

lemma reachable_inv:
  "reachable s \<Longrightarrow> wf_grid s \<and> distinct (dirtySet s) \<and> (cols s \<le> 10000 \<longrightarrow> covered s)"
proof (induction rule: reachable.induct)
  case (start w h f)
  show ?case by (simp add: buildGrid_wf buildGrid_covered initial_def)
next
  case (move s mx my s')
  let ?s0 = "s\<lparr>mouseCol := \<lfloor>mx / CELL_SIZE\<rfloor>, mouseRow := \<lfloor>my / CELL_SIZE\<rfloor>\<rparr>"
  have s': "s' = (if \<lfloor>mx / CELL_SIZE\<rfloor> = mouseCol s \<and> \<lfloor>my / CELL_SIZE\<rfloor> = mouseRow s then s
                  else fold visit_pure offsets ?s0)"
    using move.hyps(2) move.IH by (simp add: onMouseMove_wf)
  show ?case
  proof (cases "\<lfloor>mx / CELL_SIZE\<rfloor> = mouseCol s \<and> \<lfloor>my / CELL_SIZE\<rfloor> = mouseRow s")
    case True
    then show ?thesis using s' move.IH by simp
  next
    case False
    have e: "s' = fold visit_pure offsets ?s0" by (subst s') (simp only: False if_False)
    have wf0: "wf_grid ?s0" using move.IH by simp
    have "wf_grid s'" unfolding e using wf0 by (rule fold_visit_wf)
    moreover have "distinct (dirtySet s')" unfolding e using move.IH by (intro fold_visit_distinct) simp
    moreover have "cols s \<le> 10000 \<Longrightarrow> covered s'"
      unfolding e using wf0 move.IH by (intro move_covered) simp_all
    moreover have "cols s' = cols s" unfolding e by simp
    ultimately show ?thesis by simp
  qed
next
  case (leave s)
  then show ?case by simp
next
  case (resize s w h)
  then show ?case by (simp add: buildGrid_wf buildGrid_covered)
next
  case (frame s now s')
  then have e: "s' = animate_pure now s" by (simp add: animate_wf)
  show ?case unfolding e using frame.IH
    by (simp add: animate_pure_wf animate_pure_distinct tick_covered)
qed

subsection \<open>Example states\<close>

lemma grid_cols_values [simp]:
  "grid_cols 0 = 1" "grid_cols 22 = 2" "grid_cols 44 = 3" "grid_cols 198 = 10" "grid_cols 219979 = 10001"
  by (simp_all add: grid_cols_def CELL_SIZE_def)

lemma initial_mouse [simp]: "mouseCol (initial f) = - 1" "mouseRow (initial f) = - 1"
  "dirtySet (initial f) = []" "rnd (initial f) = f" "rpos (initial f) = 0" "lastFrame (initial f) = 0"
  by (simp_all add: initial_def)

lemma demo_start_reachable: "reachable demo_start"
  unfolding demo_start_def by (rule reachable.start)

lemma demo_start_frame [simp]: "rows demo_start = 3" "cols demo_start = 3"
  "mouseCol demo_start = - 1" "mouseRow demo_start = - 1" "dirtySet demo_start = []"
  by (simp_all add: demo_start_def)

lemma demo_start_idle: "r < 3 \<Longrightarrow> c < 3 \<Longrightarrow> state (grid demo_start ! r ! c) = Idle"
  by (simp add: demo_start_def buildGrid_cell)

lemma demo_move: "onMouseMove 30 30 demo_start = Inr demo_moved"
proof -
  have "wf_grid demo_start" unfolding demo_start_def by (rule buildGrid_wf)
  then show ?thesis by (simp add: onMouseMove_wf demo_moved_def CELL_SIZE_def)
qed

lemma demo_moved_reachable: "reachable demo_moved"
  using demo_start_reachable demo_move by (rule reachable.move)

lemma demo_moved_frame [simp]: "rows demo_moved = 3" "cols demo_moved = 3"
  "mouseCol demo_moved = 1" "mouseRow demo_moved = 1"
  by (simp_all add: demo_moved_def)

lemma demo_moved_cell:
  assumes "r < 3" "c < 3"
  shows "grid demo_moved ! r ! c = armed (1 / 2) (grid demo_start ! r ! c)"
proof -
  let ?s0 = "demo_start\<lparr>mouseCol := 1, mouseRow := 1\<rparr>"
  have wf: "wf_grid ?s0" using buildGrid_wf [of 44 44] by (simp add: demo_start_def)
  have rc: "r < rows ?s0" "c < cols ?s0" using assms by simp_all
  have ib: "in_block offsets ?s0 r c" using assms by (simp add: in_block_offsets) linarith
  have idle: "state (grid ?s0 ! r ! c) = Idle" using assms by (simp add: demo_start_idle)
  from fold_visit_armed [OF wf rc ib idle] show ?thesis
    by (simp add: demo_moved_def demo_start_def)
qed

lemma demo_moved_dirty: "r < 3 \<Longrightarrow> c < 3 \<Longrightarrow> key r c \<in> set (dirtySet demo_moved)"
proof -
  assume a: "r < 3" "c < 3"
  let ?s0 = "demo_start\<lparr>mouseCol := 1, mouseRow := 1\<rparr>"
  have wf: "wf_grid ?s0" using buildGrid_wf [of 44 44] by (simp add: demo_start_def)
  have rc: "r < rows ?s0" "c < cols ?s0" using a by simp_all
  have ib: "in_block offsets ?s0 r c" using a by (simp add: in_block_offsets) linarith
  have idle: "state (grid ?s0 ! r ! c) = Idle" using a by (simp add: demo_start_idle)
  from fold_visit_dirty_hit [OF wf rc ib idle] show ?thesis by (simp add: demo_moved_def)
qed

subsection \<open>The dirty-set invariant\<close>

lemma key_col_less: "key_col k < 10000"
  by (simp add: key_col_def)

lemma wide_start_facts [simp]: "rows wide_start = 2" "cols wide_start = 10001"
  "mouseCol wide_start = - 1" "mouseRow wide_start = - 1"
  by (simp_all add: wide_start_def)

lemma wide_start_reachable: "reachable wide_start"
  unfolding wide_start_def by (rule reachable.start)

lemma wide_move: "onMouseMove 219978 5 wide_start = Inr wide_moved"
proof -
  have "wf_grid wide_start" unfolding wide_start_def by (rule buildGrid_wf)
  then show ?thesis by (simp add: onMouseMove_wf wide_moved_def CELL_SIZE_def)
qed

lemma wide_moved_reachable: "reachable wide_moved"
  using wide_start_reachable wide_move by (rule reachable.move)

lemma wide_moved_facts [simp]: "rows wide_moved = 2" "cols wide_moved = 10001"
  by (simp_all add: wide_moved_def)

lemma wide_tick: "animate 60 wide_moved = Inr wide_ticked"
  using reachable_inv [OF wide_moved_reachable] by (simp add: animate_wf wide_ticked_def)

lemma wide_moved_cell: "state (grid wide_moved ! 0 ! 10000) = Scramble"
proof -
  let ?s0 = "wide_start\<lparr>mouseCol := 9999, mouseRow := 0\<rparr>"
  have wf: "wf_grid ?s0" using buildGrid_wf [of 219979 22] by (simp add: wide_start_def)
  have rc: "0 < rows ?s0" "10000 < cols ?s0" by simp_all
  have ib: "in_block offsets ?s0 0 10000" by (simp add: in_block_offsets)
  have idle: "state (grid ?s0 ! 0 ! 10000) = Idle" by (simp add: wide_start_def buildGrid_cell)
  from fold_visit_armed [OF wf rc ib idle] show ?thesis
    by (auto simp add: wide_moved_def)
qed

lemma wide_moved_first: "state (grid wide_moved ! Suc 0 ! 0) = Idle"
proof -
  let ?s0 = "wide_start\<lparr>mouseCol := 9999, mouseRow := 0\<rparr>"
  have wf: "wf_grid ?s0" using buildGrid_wf [of 219979 22] by (simp add: wide_start_def)
  have rc: "1 < rows ?s0" "0 < cols ?s0" by simp_all
  have "\<not> (in_block offsets ?s0 1 0 \<and> state (grid ?s0 ! 1 ! 0) = Idle)"
    by (simp add: in_block_offsets)
  from fold_visit_other [OF wf rc this]
  have "grid wide_moved ! 1 ! 0 = grid wide_start ! 1 ! 0" by (simp add: wide_moved_def)
  then show ?thesis by (simp add: wide_start_def buildGrid_cell)
qed

text \<open>
  Claim C1 as stated fails on a grid with more than 10000 columns. A canvas 219979 pixels
  wide and 22 pixels high gives two rows of 10001 cells. A pointer move to the pixel
  (219978, 5) lands in row 0 and column 9999 and arms, among its neighbours, the cell in
  row 0 and column 10000, whose key 10000 is also the key of row 1 and column 0. The next
  tick decodes the key to row 1 and column 0, finds an idle cell there and drops the key,
  while the cell in column 10000 stays in state \<open>Scramble\<close>: a cell that is not idle with
  its key absent from the dirty set.
\<close>

theorem wide_grid_breaks_invariant:
  "onMouseMove 219978 5 wide_start = Inr wide_moved \<and>
   animate 60 wide_moved = Inr wide_ticked \<and>
   0 < rows wide_ticked \<and> 10000 < cols wide_ticked \<and>
   key 0 10000 = key 1 0 \<and>
   state (grid wide_ticked ! 0 ! 10000) = Scramble \<and>
   key 0 10000 \<notin> set (dirtySet wide_ticked)"
proof -
  note inv = reachable_inv [OF wide_moved_reachable]
  have wf: "wf_grid wide_moved" and di: "distinct (dirtySet wide_moved)" using inv by simp_all
  have "\<forall>k\<in>set (dirtySet wide_moved). \<not> (key_row k = 0 \<and> key_col k = 10000)"
    using key_col_less by (metis less_irrefl)
  then have "grid wide_ticked ! 0 ! 10000 = grid wide_moved ! 0 ! 10000"
    unfolding wide_ticked_def by (intro animate_pure_other [OF wf]) simp_all
  then have c: "state (grid wide_ticked ! 0 ! 10000) = Scramble" by (simp add: wide_moved_cell)
  have e: "key 0 10000 = key 1 0" by (simp add: key_def)
  have "cell_gone 60 (grid wide_moved ! key_row (key 1 0) ! key_col (key 1 0))"
    by (simp add: cell_gone_def wide_moved_first)
  then have d: "key 0 10000 \<notin> set (dirtySet wide_ticked)"
    unfolding wide_ticked_def e by (simp add: animate_pure_dirty [OF wf di])
  show ?thesis using wide_move wide_tick c d e by (simp add: wide_ticked_def)
qed

text \<open>
  Claim C1, amended: in every state the engine reaches, if the grid has at most 10000
  columns, a scheduler tick returns normally and afterwards, for every cell of the current
  grid, the state of the cell is \<open>Idle\<close> if and only if its packed coordinate key is absent from
  the dirty set.
\<close>

theorem tick_invariant:
  assumes "reachable s" "cols s \<le> 10000"
  shows "\<exists>s'. animate now s = Inr s' \<and>
           (\<forall>r<rows s'. \<forall>c<cols s'.
              (state (grid s' ! r ! c) = Idle) = (key r c \<notin> set (dirtySet s')))"
proof -
  note inv = reachable_inv [OF assms(1)]
  have wf: "wf_grid s" and di: "distinct (dirtySet s)" using inv by simp_all
  have run: "animate now s = Inr (animate_pure now s)" using wf by (rule animate_wf)
  have "reachable (animate_pure now s)" using assms(1) run by (rule reachable.frame)
  then have cov: "covered (animate_pure now s)" using reachable_inv assms(2) by fastforce
  have "(state (grid (animate_pure now s) ! r ! c) = Idle) =
        (key r c \<notin> set (dirtySet (animate_pure now s)))"
    if rc: "r < rows (animate_pure now s)" "c < cols (animate_pure now s)" for r c
  proof -
    have rc': "r < rows s" "c < cols s" "c < 10000" using rc assms(2) by simp_all
    show ?thesis
    proof (cases "key r c \<in> set (dirtySet (animate_pure now s))")
      case True
      then have k: "key r c \<in> set (dirtySet s)" and g: "\<not> cell_gone now (grid s ! r ! c)"
        using tick_cell_dirty [OF wf di rc'] by simp_all
      obtain g' where "grid (animate_pure now s) ! r ! c =
        cell_next now (now - lastFrame s \<ge> FRAME_INTERVAL) g' (grid s ! r ! c)"
        using tick_cell_hit [OF wf di rc' k] by blast
      then have "state (grid (animate_pure now s) ! r ! c) \<noteq> Idle"
        using g by (simp add: cell_gone_iff [symmetric])
      then show ?thesis using True by simp
    next
      case False
      then show ?thesis using cov rc by (auto simp add: covered_def)
    qed
  qed
  then show ?thesis using run by blast
qed

theorem tick_invariant_witness:
  "reachable demo_moved \<and> cols demo_moved \<le> 10000 \<and>
   (\<exists>s'. animate 100 demo_moved = Inr s' \<and>
      (\<forall>r<rows s'. \<forall>c<cols s'.
         (state (grid s' ! r ! c) = Idle) = (key r c \<notin> set (dirtySet s'))))"
proof -
  have c: "cols demo_moved \<le> 10000" by simp
  show ?thesis using demo_moved_reachable c tick_invariant [OF demo_moved_reachable c, of 100]
    by blast
qed

subsection \<open>Rebuild\<close>

lemma cell_next_idle: "state x = Idle \<Longrightarrow> cell_next now tk g x = x"
  by (simp add: cell_next_def)

lemma tick_cell_any:
  assumes "wf_grid s" "distinct (dirtySet s)" "r < rows s" "c < cols s"
  shows "(\<exists>g. grid (animate_pure now s) ! r ! c =
               cell_next now (now - lastFrame s \<ge> FRAME_INTERVAL) g (grid s ! r ! c)) \<or>
         grid (animate_pure now s) ! r ! c = grid s ! r ! c"
proof (cases "\<exists>k\<in>set (dirtySet s). key_row k = r \<and> key_col k = c")
  case True
  then obtain k where k: "k \<in> set (dirtySet s)" "key_row k = r" "key_col k = c" by blast
  then have "\<not> stale s k" using assms by (simp add: stale_def)
  from animate_pure_hit [OF assms(1) assms(2) k(1) this, of now] show ?thesis
    using k by simp
next
  case False
  then have "\<forall>k\<in>set (dirtySet s). \<not> (key_row k = r \<and> key_col k = c)" by simp
  then have "grid (animate_pure now s) ! r ! c = grid s ! r ! c"
    by (rule animate_pure_other [OF assms(1) assms(3) assms(4)])
  then show ?thesis by simp
qed

lemma tick_all_idle:
  assumes "wf_grid s" "distinct (dirtySet s)"
    and "\<forall>r<rows s. \<forall>c<cols s. state (grid s ! r ! c) = Idle"
  shows "dirtySet (animate_pure now s) = []"
    and "\<forall>r<rows s. \<forall>c<cols s. grid (animate_pure now s) ! r ! c = grid s ! r ! c"
proof -
  have "set (dirtySet (animate_pure now s)) = {}"
    using assms(3) by (auto simp add: animate_pure_dirty [OF assms(1) assms(2)] stale_def cell_gone_def)
  then show "dirtySet (animate_pure now s) = []" by simp
  show "\<forall>r<rows s. \<forall>c<cols s. grid (animate_pure now s) ! r ! c = grid s ! r ! c"
  proof (intro allI impI)
    fix r c
    assume rc: "r < rows s" "c < cols s"
    then have "state (grid s ! r ! c) = Idle" using assms(3) by simp
    then show "grid (animate_pure now s) ! r ! c = grid s ! r ! c"
      using tick_cell_any [OF assms(1) assms(2) rc, of now] by (auto simp add: cell_next_idle)
  qed
qed

text \<open>
  Claim C2 as stated fails: \<open>buildGrid\<close> does not clear the dirty set. On a 3 by 3 grid a pointer
  move arms the cell in row 0 and column 0 and inserts its key; after a rebuild the key is
  still in the dirty set, which is therefore not empty.
\<close>

theorem rebuild_keeps_dirty_set:
  "onMouseMove 30 30 demo_start = Inr demo_moved \<and>
   state (grid demo_moved ! 0 ! 0) = Scramble \<and>
   key 0 0 \<in> set (dirtySet (buildGrid 22 22 demo_moved)) \<and>
   dirtySet (buildGrid 22 22 demo_moved) \<noteq> []"
proof -
  have "key 0 0 \<in> set (dirtySet demo_moved)" by (rule demo_moved_dirty) simp_all
  then have "key 0 0 \<in> set (dirtySet (buildGrid 22 22 demo_moved))" by simp
  moreover from this have "dirtySet (buildGrid 22 22 demo_moved) \<noteq> []" by auto
  moreover have "state (grid demo_moved ! 0 ! 0) = Scramble" by (simp add: demo_moved_cell)
  ultimately show ?thesis using demo_move by simp
qed

text \<open>
  Claim C2, amended: after a rebuild the grid has the dimensions computed from the
  canvas, every cell of the new grid is \<open>Idle\<close> with a freshly drawn glyph, the base colour, no
  original glyph and zero counters, and the rebuild itself leaves the dirty set as it was; the
  next scheduler tick returns normally, removes every key left in the dirty set and changes
  no cell.
\<close>

theorem rebuild_postcondition:
  assumes "distinct (dirtySet s)"
  shows "cols (buildGrid w h s) = nat \<lceil>real w / CELL_SIZE\<rceil> + 1 \<and>
         rows (buildGrid w h s) = nat \<lceil>real h / CELL_SIZE\<rceil> + 1 \<and>
         length (grid (buildGrid w h s)) = rows (buildGrid w h s) \<and>
         (\<forall>r<rows (buildGrid w h s). length (grid (buildGrid w h s) ! r) = cols (buildGrid w h s) \<and>
            (\<forall>c<cols (buildGrid w h s).
               grid (buildGrid w h s) ! r ! c =
                 \<lparr>symbol = js_index SYMBOLS
                      \<lfloor>rnd s (rpos s + r * cols (buildGrid w h s) + c) * real (length SYMBOLS)\<rfloor>,
                  origSymbol = None, color = BASE_COLOR, state = Idle,
                  framesLeft = 0, settleStart = 0\<rparr>)) \<and>
         dirtySet (buildGrid w h s) = dirtySet s \<and>
         (\<exists>s'. animate now (buildGrid w h s) = Inr s' \<and> dirtySet s' = [] \<and>
            (\<forall>r<rows (buildGrid w h s). \<forall>c<cols (buildGrid w h s).
               grid s' ! r ! c = grid (buildGrid w h s) ! r ! c))"
proof -
  let ?b = "buildGrid w h s"
  have wf: "wf_grid ?b" by (rule buildGrid_wf)
  have di: "distinct (dirtySet ?b)" using assms by simp
  have idle: "\<forall>r<rows ?b. \<forall>c<cols ?b. state (grid ?b ! r ! c) = Idle"
    by (simp add: buildGrid_cell)
  have run: "animate now ?b = Inr (animate_pure now ?b)" using wf by (rule animate_wf)
  have t: "\<exists>s'. animate now ?b = Inr s' \<and> dirtySet s' = [] \<and>
            (\<forall>r<rows ?b. \<forall>c<cols ?b. grid s' ! r ! c = grid ?b ! r ! c)"
    using run tick_all_idle [OF wf di idle, of now] by blast
  have cells: "\<forall>r<rows ?b. length (grid ?b ! r) = cols ?b \<and>
            (\<forall>c<cols ?b. grid ?b ! r ! c =
                 \<lparr>symbol = js_index SYMBOLS \<lfloor>rnd s (rpos s + r * cols ?b + c) * real (length SYMBOLS)\<rfloor>,
                  origSymbol = None, color = BASE_COLOR, state = Idle,
                  framesLeft = 0, settleStart = 0\<rparr>)"
    using wf by (simp add: buildGrid_cell new_cell_def glyph_of_def wf_grid_row)
  have dims: "cols ?b = nat \<lceil>real w / CELL_SIZE\<rceil> + 1" "rows ?b = nat \<lceil>real h / CELL_SIZE\<rceil> + 1"
    by (simp_all add: grid_cols_def)
  have len: "length (grid ?b) = rows ?b" using wf by (simp add: wf_grid_def)
  have ds: "dirtySet ?b = dirtySet s" by simp
  show ?thesis using dims len cells ds t by blast
qed

theorem rebuild_postcondition_witness:
  "distinct (dirtySet demo_moved) \<and> dirtySet demo_moved \<noteq> [] \<and>
   state (grid (buildGrid 22 22 demo_moved) ! 0 ! 0) = Idle \<and>
   dirtySet (buildGrid 22 22 demo_moved) = dirtySet demo_moved \<and>
   (\<exists>s'. animate 100 (buildGrid 22 22 demo_moved) = Inr s' \<and> dirtySet s' = [])"
proof -
  have d: "distinct (dirtySet demo_moved)" using reachable_inv [OF demo_moved_reachable] by simp
  have "key 0 0 \<in> set (dirtySet demo_moved)" by (rule demo_moved_dirty) simp_all
  then have ne: "dirtySet demo_moved \<noteq> []" by auto
  have i: "state (grid (buildGrid 22 22 demo_moved) ! 0 ! 0) = Idle" by (simp add: buildGrid_cell)
  show ?thesis using d ne i rebuild_postcondition [OF d, of 22 22 100] by blast
qed

subsection \<open>Activation\<close>

lemma move_result:
  assumes "wf_grid s" "\<not> (\<lfloor>mx / CELL_SIZE\<rfloor> = mouseCol s \<and> \<lfloor>my / CELL_SIZE\<rfloor> = mouseRow s)"
  shows "onMouseMove mx my s =
           Inr (fold visit_pure offsets
                  (s\<lparr>mouseCol := \<lfloor>mx / CELL_SIZE\<rfloor>, mouseRow := \<lfloor>my / CELL_SIZE\<rfloor>\<rparr>))"
  by (subst onMouseMove_wf [OF assms(1)]) (simp only: assms(2) if_False)

lemma in_block_moved:
  "in_block offsets (s\<lparr>mouseCol := a, mouseRow := b\<rparr>) r c \<longleftrightarrow>
     \<bar>int r - b\<bar> \<le> 1 \<and> \<bar>int c - a\<bar> \<le> 1"
  by (simp add: in_block_offsets)

text \<open>
  Claim C3 as stated fails in its last part: on a 3 by 3 grid a pointer move arms the idle
  cell in row 0 and column 0, and right after the activation its colour is still the base
  tone, not the hover tone.
\<close>

theorem activation_keeps_color:
  "onMouseMove 30 30 demo_start = Inr demo_moved \<and>
   state (grid demo_start ! 0 ! 0) = Idle \<and>
   state (grid demo_moved ! 0 ! 0) = Scramble \<and>
   color (grid demo_moved ! 0 ! 0) = BASE_COLOR \<and>
   color (grid demo_moved ! 0 ! 0) \<noteq> HOVER_COLOR"
proof -
  have "grid demo_start ! 0 ! 0 = new_cell (glyph_of (1 / 2))"
    by (simp add: demo_start_def buildGrid_cell)
  then have "color (grid demo_moved ! 0 ! 0) = BASE_COLOR"
    by (simp add: demo_moved_cell armed_def new_cell_def)
  moreover have "BASE_COLOR \<noteq> HOVER_COLOR" by (simp add: BASE_COLOR_def HOVER_COLOR_def)
  moreover have "state (grid demo_moved ! 0 ! 0) = Scramble" by (simp add: demo_moved_cell)
  moreover have "state (grid demo_start ! 0 ! 0) = Idle" by (simp add: demo_start_idle)
  ultimately show ?thesis using demo_move by simp
qed

text \<open>
  Claim C3, amended: when a pointer move lands in a new grid cell, every idle cell
  within distance one of it in both coordinates enters \<open>Scramble\<close> with its current glyph captured
  as the original glyph (the glyph itself stays), with the countdown set to \<open>SCRAMBLE_FRAMES\<close>
  plus the floor of three times a random draw, and with its colour and settle start left
  unchanged.
\<close>

theorem activation_entry:
  assumes "wf_grid s"
    and "\<not> (\<lfloor>mx / CELL_SIZE\<rfloor> = mouseCol s \<and> \<lfloor>my / CELL_SIZE\<rfloor> = mouseRow s)"
    and "r < rows s" "c < cols s"
    and "\<bar>int r - \<lfloor>my / CELL_SIZE\<rfloor>\<bar> \<le> 1" "\<bar>int c - \<lfloor>mx / CELL_SIZE\<rfloor>\<bar> \<le> 1"
    and "state (grid s ! r ! c) = Idle"
  shows "\<exists>s' n. onMouseMove mx my s = Inr s' \<and>
           state (grid s' ! r ! c) = Scramble \<and>
           origSymbol (grid s' ! r ! c) = symbol (grid s ! r ! c) \<and>
           symbol (grid s' ! r ! c) = symbol (grid s ! r ! c) \<and>
           framesLeft (grid s' ! r ! c) = SCRAMBLE_FRAMES + \<lfloor>rnd s n * 3\<rfloor> \<and>
           color (grid s' ! r ! c) = color (grid s ! r ! c) \<and>
           settleStart (grid s' ! r ! c) = settleStart (grid s ! r ! c)"
proof -
  let ?s0 = "s\<lparr>mouseCol := \<lfloor>mx / CELL_SIZE\<rfloor>, mouseRow := \<lfloor>my / CELL_SIZE\<rfloor>\<rparr>"
  have wf0: "wf_grid ?s0" using assms(1) by simp
  have rc: "r < rows ?s0" "c < cols ?s0" using assms by simp_all
  have ib: "in_block offsets ?s0 r c" using assms by (simp add: in_block_moved)
  have idle: "state (grid ?s0 ! r ! c) = Idle" using assms by simp
  obtain n where "grid (fold visit_pure offsets ?s0) ! r ! c = armed (rnd s n) (grid s ! r ! c)"
    using fold_visit_armed [OF wf0 rc ib idle] by auto
  then show ?thesis using move_result [OF assms(1) assms(2)]
    by (auto simp add: armed_def)
qed

theorem activation_entry_witness:
  "wf_grid demo_start \<and>
   \<not> (\<lfloor>5 / CELL_SIZE\<rfloor> = mouseCol demo_start \<and> \<lfloor>5 / CELL_SIZE\<rfloor> = mouseRow demo_start) \<and>
   (1::nat) < rows demo_start \<and> (1::nat) < cols demo_start \<and>
   \<bar>int 1 - \<lfloor>5 / CELL_SIZE\<rfloor>\<bar> \<le> 1 \<and> state (grid demo_start ! 1 ! 1) = Idle \<and>
   (\<exists>s' n. onMouseMove 5 5 demo_start = Inr s' \<and>
           state (grid s' ! 1 ! 1) = Scramble \<and>
           origSymbol (grid s' ! 1 ! 1) = symbol (grid demo_start ! 1 ! 1) \<and>
           symbol (grid s' ! 1 ! 1) = symbol (grid demo_start ! 1 ! 1) \<and>
           framesLeft (grid s' ! 1 ! 1) = SCRAMBLE_FRAMES + \<lfloor>rnd demo_start n * 3\<rfloor> \<and>
           color (grid s' ! 1 ! 1) = color (grid demo_start ! 1 ! 1) \<and>
           settleStart (grid s' ! 1 ! 1) = settleStart (grid demo_start ! 1 ! 1))"
proof -
  have wf: "wf_grid demo_start" unfolding demo_start_def by (rule buildGrid_wf)
  have m: "\<not> (\<lfloor>5 / CELL_SIZE\<rfloor> = mouseCol demo_start \<and> \<lfloor>5 / CELL_SIZE\<rfloor> = mouseRow demo_start)"
    by (simp add: CELL_SIZE_def)
  have rc: "(1::nat) < rows demo_start" "(1::nat) < cols demo_start" by simp_all
  have n: "\<bar>int 1 - \<lfloor>5 / CELL_SIZE\<rfloor>\<bar> \<le> 1" by (simp add: CELL_SIZE_def)
  have i: "state (grid demo_start ! 1 ! 1) = Idle" by (simp add: demo_start_idle)
  show ?thesis using wf m rc n i activation_entry [OF wf m rc n n i] by blast
qed

subsection \<open>Re-activation and the neighbourhood\<close>

text \<open>
  Claim C6: a pointer move on a well-formed grid returns normally and leaves every cell
  that is not \<open>Idle\<close> exactly as it was (all six fields); so only idle cells are modified by an
  activation.
\<close>

theorem reactivation_idempotent:
  assumes "wf_grid s"
  shows "\<exists>s'. onMouseMove mx my s = Inr s' \<and>
           (\<forall>r<rows s. \<forall>c<cols s.
              state (grid s ! r ! c) \<noteq> Idle \<longrightarrow> grid s' ! r ! c = grid s ! r ! c)"
proof (cases "\<lfloor>mx / CELL_SIZE\<rfloor> = mouseCol s \<and> \<lfloor>my / CELL_SIZE\<rfloor> = mouseRow s")
  case True
  then have "onMouseMove mx my s = Inr s" by (simp add: onMouseMove_def Let_def)
  then show ?thesis by simp
next
  case False
  note moved = move_result [OF assms False]
  let ?s0 = "s\<lparr>mouseCol := \<lfloor>mx / CELL_SIZE\<rfloor>, mouseRow := \<lfloor>my / CELL_SIZE\<rfloor>\<rparr>"
  have wf0: "wf_grid ?s0" using assms by simp
  have "grid (fold visit_pure offsets ?s0) ! r ! c = grid s ! r ! c"
    if "r < rows s" "c < cols s" "state (grid s ! r ! c) \<noteq> Idle" for r c
    using fold_visit_other [OF wf0, of r c offsets] that by simp
  then show ?thesis using moved by simp
qed

theorem reactivation_idempotent_witness:
  "wf_grid demo_moved \<and> (0::nat) < rows demo_moved \<and> (0::nat) < cols demo_moved \<and>
   state (grid demo_moved ! 0 ! 0) \<noteq> Idle \<and>
   (\<exists>s'. onMouseMove 30 5 demo_moved = Inr s' \<and> grid s' ! 0 ! 0 = grid demo_moved ! 0 ! 0)"
proof -
  have wf: "wf_grid demo_moved" using reachable_inv [OF demo_moved_reachable] by simp
  have rc: "(0::nat) < rows demo_moved" "(0::nat) < cols demo_moved" by simp_all
  have ni: "state (grid demo_moved ! 0 ! 0) \<noteq> Idle" by (simp add: demo_moved_cell)
  show ?thesis using wf rc ni reactivation_idempotent [OF wf, of 30 5] by blast
qed

text \<open>
  Claim C7: a pointer move that lands in a grid cell different from the tracked one
  returns normally, keeps the dimensions of the grid, turns every idle cell whose row and
  column are within distance one of the new cell to \<open>Scramble\<close>, and leaves every other cell of
  the grid unchanged; offsets outside the grid have no effect.
\<close>

theorem neighbourhood_activation:
  assumes "wf_grid s"
    and "\<not> (\<lfloor>mx / CELL_SIZE\<rfloor> = mouseCol s \<and> \<lfloor>my / CELL_SIZE\<rfloor> = mouseRow s)"
  shows "\<exists>s'. onMouseMove mx my s = Inr s' \<and>
           rows s' = rows s \<and> cols s' = cols s \<and> length (grid s') = rows s \<and>
           (\<forall>r<rows s. length (grid s' ! r) = cols s \<and>
              (\<forall>c<cols s.
                 if \<bar>int r - \<lfloor>my / CELL_SIZE\<rfloor>\<bar> \<le> 1 \<and> \<bar>int c - \<lfloor>mx / CELL_SIZE\<rfloor>\<bar> \<le> 1 \<and>
                    state (grid s ! r ! c) = Idle
                 then state (grid s' ! r ! c) = Scramble
                 else grid s' ! r ! c = grid s ! r ! c))"
proof -
  let ?s0 = "s\<lparr>mouseCol := \<lfloor>mx / CELL_SIZE\<rfloor>, mouseRow := \<lfloor>my / CELL_SIZE\<rfloor>\<rparr>"
  let ?s' = "fold visit_pure offsets ?s0"
  have wf0: "wf_grid ?s0" using assms(1) by simp
  have wf': "wf_grid ?s'" using wf0 by (rule fold_visit_wf)
  have run: "onMouseMove mx my s = Inr ?s'" by (rule move_result [OF assms])
  have dims: "rows ?s' = rows s" "cols ?s' = cols s" by simp_all
  have len: "length (grid ?s') = rows s" using wf' by (simp add: wf_grid_def)
  have rowlen: "length (grid ?s' ! r) = cols s" if "r < rows s" for r
    using wf_grid_row [OF wf', of r] that by simp
  have cell: "if \<bar>int r - \<lfloor>my / CELL_SIZE\<rfloor>\<bar> \<le> 1 \<and> \<bar>int c - \<lfloor>mx / CELL_SIZE\<rfloor>\<bar> \<le> 1 \<and>
                    state (grid s ! r ! c) = Idle
                 then state (grid ?s' ! r ! c) = Scramble
                 else grid ?s' ! r ! c = grid s ! r ! c"
    if rc: "r < rows s" "c < cols s" for r c
  proof (cases "\<bar>int r - \<lfloor>my / CELL_SIZE\<rfloor>\<bar> \<le> 1 \<and> \<bar>int c - \<lfloor>mx / CELL_SIZE\<rfloor>\<bar> \<le> 1 \<and>
                    state (grid s ! r ! c) = Idle")
    case True
    then have ib: "in_block offsets ?s0 r c" and idle: "state (grid ?s0 ! r ! c) = Idle"
      by (simp_all add: in_block_moved)
    have rc0: "r < rows ?s0" "c < cols ?s0" using rc by simp_all
    obtain n where "grid ?s' ! r ! c = armed (rnd ?s0 n) (grid ?s0 ! r ! c)"
      using fold_visit_armed [OF wf0 rc0 ib idle] by blast
    then have "state (grid ?s' ! r ! c) = Scramble" by simp
    then show ?thesis using True by simp
  next
    case False
    then have "\<not> (in_block offsets ?s0 r c \<and> state (grid ?s0 ! r ! c) = Idle)"
      by (simp add: in_block_moved)
    then have "grid ?s' ! r ! c = grid ?s0 ! r ! c"
      using rc by (intro fold_visit_other [OF wf0]) simp_all
    then show ?thesis using False by simp
  qed
  show ?thesis using run dims len rowlen cell by blast
qed

lemma ten_start_facts [simp]: "rows ten_start = 10" "cols ten_start = 10"
  "mouseCol ten_start = - 1" "mouseRow ten_start = - 1"
  by (simp_all add: ten_start_def)

lemma ten_start_idle: "r < 10 \<Longrightarrow> c < 10 \<Longrightarrow> state (grid ten_start ! r ! c) = Idle"
  by (simp add: ten_start_def buildGrid_cell)

theorem neighbourhood_activation_witness:
  "wf_grid ten_start \<and>
   \<not> (\<lfloor>120 / CELL_SIZE\<rfloor> = mouseCol ten_start \<and> \<lfloor>120 / CELL_SIZE\<rfloor> = mouseRow ten_start) \<and>
   rows ten_start = 10 \<and> cols ten_start = 10 \<and> \<lfloor>120 / CELL_SIZE\<rfloor> = 5 \<and>
   (\<exists>s'. onMouseMove 120 120 ten_start = Inr s' \<and>
      state (grid s' ! 4 ! 4) = Scramble \<and> state (grid s' ! 5 ! 5) = Scramble \<and>
      state (grid s' ! 6 ! 6) = Scramble \<and> state (grid s' ! 4 ! 6) = Scramble \<and>
      grid s' ! 3 ! 5 = grid ten_start ! 3 ! 5 \<and> grid s' ! 5 ! 7 = grid ten_start ! 5 ! 7)"
proof -
  have wf: "wf_grid ten_start" unfolding ten_start_def by (rule buildGrid_wf)
  have f: "\<lfloor>120 / CELL_SIZE\<rfloor> = 5" by (simp add: CELL_SIZE_def)
  have m: "\<not> (\<lfloor>120 / CELL_SIZE\<rfloor> = mouseCol ten_start \<and> \<lfloor>120 / CELL_SIZE\<rfloor> = mouseRow ten_start)"
    by (simp add: f)
  obtain s' where run: "onMouseMove 120 120 ten_start = Inr s'"
    and cells: "\<forall>r<rows ten_start. length (grid s' ! r) = cols ten_start \<and>
              (\<forall>c<cols ten_start.
                 if \<bar>int r - \<lfloor>120 / CELL_SIZE\<rfloor>\<bar> \<le> 1 \<and> \<bar>int c - \<lfloor>120 / CELL_SIZE\<rfloor>\<bar> \<le> 1 \<and>
                    state (grid ten_start ! r ! c) = Idle
                 then state (grid s' ! r ! c) = Scramble
                 else grid s' ! r ! c = grid ten_start ! r ! c)"
    using neighbourhood_activation [OF wf m] by blast
  have cell: "if \<bar>int r - 5\<bar> \<le> 1 \<and> \<bar>int c - 5\<bar> \<le> 1
              then state (grid s' ! r ! c) = Scramble
              else grid s' ! r ! c = grid ten_start ! r ! c" if "r < 10" "c < 10" for r c
    using cells that by (simp add: f ten_start_idle)
  have "state (grid s' ! 4 ! 4) = Scramble" using cell [of 4 4] by simp
  moreover have "state (grid s' ! 5 ! 5) = Scramble" using cell [of 5 5] by simp
  moreover have "state (grid s' ! 6 ! 6) = Scramble" using cell [of 6 6] by simp
  moreover have "state (grid s' ! 4 ! 6) = Scramble" using cell [of 4 6] by simp
  moreover have "grid s' ! 3 ! 5 = grid ten_start ! 3 ! 5" using cell [of 3 5] by simp
  moreover have "grid s' ! 5 ! 7 = grid ten_start ! 5 ! 7" using cell [of 5 7] by simp
  ultimately show ?thesis using wf m f run by simp
qed

subsection \<open>The jitter of the countdown\<close>

lemma jitter_range:
  fixes u :: real
  assumes "0 \<le> u" "u < 1"
  shows "0 \<le> \<lfloor>u * 3\<rfloor>" "\<lfloor>u * 3\<rfloor> \<le> 2"
proof -
  show "0 \<le> \<lfloor>u * 3\<rfloor>" using assms by simp
  have "u * 3 < 3" using assms by simp
  then have "\<lfloor>u * 3\<rfloor> < 3" by (simp add: floor_less_iff)
  then show "\<lfloor>u * 3\<rfloor> \<le> 2" by simp
qed

text \<open>
  Claim C10: with \<open>Math.random\<close> in the half-open interval from 0 to 1, every cell that a
  pointer move takes from \<open>Idle\<close> to another state has its countdown in the range from
  \<open>SCRAMBLE_FRAMES\<close> to \<open>SCRAMBLE_FRAMES + 2\<close>, that is from 6 to 8, hence at least 1.
\<close>

theorem jitter_bound:
  assumes "wf_grid s" "\<forall>n. 0 \<le> rnd s n \<and> rnd s n < 1"
  shows "\<exists>s'. onMouseMove mx my s = Inr s' \<and>
           (\<forall>r<rows s. \<forall>c<cols s.
              state (grid s ! r ! c) = Idle \<and> state (grid s' ! r ! c) \<noteq> Idle \<longrightarrow>
                SCRAMBLE_FRAMES \<le> framesLeft (grid s' ! r ! c) \<and>
                framesLeft (grid s' ! r ! c) \<le> SCRAMBLE_FRAMES + 2 \<and>
                6 \<le> framesLeft (grid s' ! r ! c) \<and> framesLeft (grid s' ! r ! c) \<le> 8 \<and>
                1 \<le> framesLeft (grid s' ! r ! c))"
proof (cases "\<lfloor>mx / CELL_SIZE\<rfloor> = mouseCol s \<and> \<lfloor>my / CELL_SIZE\<rfloor> = mouseRow s")
  case True
  then have "onMouseMove mx my s = Inr s" by (simp add: onMouseMove_def Let_def)
  then show ?thesis by simp
next
  case False
  let ?s0 = "s\<lparr>mouseCol := \<lfloor>mx / CELL_SIZE\<rfloor>, mouseRow := \<lfloor>my / CELL_SIZE\<rfloor>\<rparr>"
  let ?s' = "fold visit_pure offsets ?s0"
  have wf0: "wf_grid ?s0" using assms(1) by simp
  have run: "onMouseMove mx my s = Inr ?s'" by (rule move_result [OF assms(1) False])
  have "SCRAMBLE_FRAMES \<le> framesLeft (grid ?s' ! r ! c) \<and>
        framesLeft (grid ?s' ! r ! c) \<le> SCRAMBLE_FRAMES + 2 \<and>
        6 \<le> framesLeft (grid ?s' ! r ! c) \<and> framesLeft (grid ?s' ! r ! c) \<le> 8 \<and>
        1 \<le> framesLeft (grid ?s' ! r ! c)"
    if rc: "r < rows s" "c < cols s"
      and ch: "state (grid s ! r ! c) = Idle" "state (grid ?s' ! r ! c) \<noteq> Idle" for r c
  proof -
    have rc0: "r < rows ?s0" "c < cols ?s0" using rc by simp_all
    have ib: "in_block offsets ?s0 r c"
    proof (rule ccontr)
      assume "\<not> in_block offsets ?s0 r c"
      then have "grid ?s' ! r ! c = grid ?s0 ! r ! c"
        by (intro fold_visit_other [OF wf0 rc0]) simp
      then show False using ch by simp
    qed
    have idle: "state (grid ?s0 ! r ! c) = Idle" using ch by simp
    obtain n where n: "grid ?s' ! r ! c = armed (rnd ?s0 n) (grid ?s0 ! r ! c)"
      using fold_visit_armed [OF wf0 rc0 ib idle] by blast
    have "0 \<le> rnd s n" "rnd s n < 1" using assms(2) by simp_all
    then have "0 \<le> \<lfloor>rnd s n * 3\<rfloor>" "\<lfloor>rnd s n * 3\<rfloor> \<le> 2" by (rule jitter_range)+
    then show ?thesis by (simp add: n armed_def SCRAMBLE_FRAMES_def)
  qed
  then show ?thesis using run by blast
qed

theorem jitter_bound_witness:
  "wf_grid demo_start \<and> (\<forall>n. 0 \<le> rnd demo_start n \<and> rnd demo_start n < 1) \<and>
   (0::nat) < rows demo_start \<and> (0::nat) < cols demo_start \<and>
   state (grid demo_start ! 0 ! 0) = Idle \<and> state (grid demo_moved ! 0 ! 0) \<noteq> Idle \<and>
   onMouseMove 30 30 demo_start = Inr demo_moved \<and>
   framesLeft (grid demo_moved ! 0 ! 0) = 7 \<and>
   6 \<le> framesLeft (grid demo_moved ! 0 ! 0) \<and> framesLeft (grid demo_moved ! 0 ! 0) \<le> 8"
proof -
  have wf: "wf_grid demo_start" unfolding demo_start_def by (rule buildGrid_wf)
  have rn: "\<forall>n. 0 \<le> rnd demo_start n \<and> rnd demo_start n < 1" by (simp add: demo_start_def)
  have rc: "(0::nat) < rows demo_start" "(0::nat) < cols demo_start" by simp_all
  have i: "state (grid demo_start ! 0 ! 0) = Idle" by (simp add: demo_start_idle)
  have a: "state (grid demo_moved ! 0 ! 0) \<noteq> Idle" by (simp add: demo_moved_cell)
  have v: "framesLeft (grid demo_moved ! 0 ! 0) = 7"
    by (simp add: demo_moved_cell armed_def SCRAMBLE_FRAMES_def)
  obtain s' where run: "onMouseMove 30 30 demo_start = Inr s'"
    and b: "\<forall>r<rows demo_start. \<forall>c<cols demo_start.
              state (grid demo_start ! r ! c) = Idle \<and> state (grid s' ! r ! c) \<noteq> Idle \<longrightarrow>
                SCRAMBLE_FRAMES \<le> framesLeft (grid s' ! r ! c) \<and>
                framesLeft (grid s' ! r ! c) \<le> SCRAMBLE_FRAMES + 2 \<and>
                6 \<le> framesLeft (grid s' ! r ! c) \<and> framesLeft (grid s' ! r ! c) \<le> 8 \<and>
                1 \<le> framesLeft (grid s' ! r ! c)"
    using jitter_bound [OF wf rn, of 30 30] by blast
  have e: "s' = demo_moved" using run demo_move by simp
  have "6 \<le> framesLeft (grid demo_moved ! 0 ! 0) \<and> framesLeft (grid demo_moved ! 0 ! 0) \<le> 8"
    using b rc i a unfolding e by blast
  then show ?thesis using wf rn rc i a v demo_move by blast
qed

subsection \<open>Stale keys\<close>

lemma pk_rm_mono: "set (snd st) \<subseteq> set (snd (processKey_pure now tk k st))"
  by (cases st) (auto simp add: pk_rm)

lemma fold_pk_rm_mono: "set (snd st) \<subseteq> set (snd (fold (processKey_pure now tk) ks st))"
proof (induction ks arbitrary: st)
  case Nil
  show ?case by simp
next
  case (Cons k ks)
  show ?case using pk_rm_mono [of st now tk k] Cons.IH [of "processKey_pure now tk k st"] by auto
qed

lemma fold_pk_rm_stale:
  "k \<in> set ks \<Longrightarrow> stale (fst st) k \<Longrightarrow> k \<in> set (snd (fold (processKey_pure now tk) ks st))"
proof (induction ks arbitrary: st)
  case Nil
  then show ?case by simp
next
  case (Cons k' ks)
  show ?case
  proof (cases "k' = k")
    case True
    obtain s rm where st: "st = (s, rm)" by (cases st)
    have "k \<in> set (snd (processKey_pure now tk k st))"
      using Cons.prems(2) by (simp add: st pk_rm)
    then show ?thesis
      using fold_pk_rm_mono [of "processKey_pure now tk k st" now tk ks] True by auto
  next
    case False
    then have "k \<in> set ks" using Cons.prems(1) by simp
    moreover have "stale (fst (processKey_pure now tk k' st)) k" using Cons.prems(2) by simp
    ultimately show ?thesis using Cons.IH by simp
  qed
qed

lemma animate_pure_drops_stale: "stale s k \<Longrightarrow> k \<notin> set (dirtySet (animate_pure now s))"
proof (cases "k \<in> set (dirtySet s)")
  case False
  then show ?thesis by (simp add: animate_pure_def Let_def set_fold_delete)
next
  case True
  assume st: "stale s k"
  let ?tk = "now - lastFrame s \<ge> FRAME_INTERVAL"
  let ?s0 = "if ?tk then s\<lparr>lastFrame := now\<rparr> else s"
  have "stale (fst (?s0, [])) k" using st by simp
  moreover have "k \<in> set (dirtySet ?s0)" using True by simp
  ultimately have "k \<in> set (snd (fold (processKey_pure now ?tk) (dirtySet ?s0) (?s0, [])))"
    by (rule fold_pk_rm_stale [rotated])
  then show ?thesis
    by (cases ?tk) (simp_all add: animate_pure_def Let_def set_fold_delete)
qed

text \<open>
  Claim C8: on a well-formed grid a scheduler tick returns normally (no access outside
  the grid arrays), and every key whose decoded row or column is out of bounds is absent from
  the dirty set afterwards; the callback on such a key returns with the key pushed on
  \<open>toRemove\<close> and the state untouched whatever the grid arrays hold, even the empty grid where
  any access would raise.
\<close>

theorem stale_keys_dropped:
  assumes "wf_grid s"
  shows "\<exists>s'. animate now s = Inr s' \<and>
           (\<forall>k. rows s \<le> key_row k \<or> cols s \<le> key_col k \<longrightarrow>
              k \<notin> set (dirtySet s') \<and>
              processKey now tk k (s\<lparr>grid := g\<rparr>, rm) = Inr (s\<lparr>grid := g\<rparr>, rm @ [k]))"
proof -
  have run: "animate now s = Inr (animate_pure now s)" using assms by (rule animate_wf)
  have "k \<notin> set (dirtySet (animate_pure now s)) \<and>
        processKey now tk k (s\<lparr>grid := g\<rparr>, rm) = Inr (s\<lparr>grid := g\<rparr>, rm @ [k])"
    if "rows s \<le> key_row k \<or> cols s \<le> key_col k" for k
  proof
    have "stale s k" using that by (simp add: stale_def)
    then show "k \<notin> set (dirtySet (animate_pure now s))" by (rule animate_pure_drops_stale)
    show "processKey now tk k (s\<lparr>grid := g\<rparr>, rm) = Inr (s\<lparr>grid := g\<rparr>, rm @ [k])"
      using that by (auto simp add: processKey_def Let_def)
  qed
  then show ?thesis using run by blast
qed

theorem stale_keys_dropped_witness:
  "wf_grid (buildGrid 22 22 demo_moved) \<and>
   key 2 2 \<in> set (dirtySet (buildGrid 22 22 demo_moved)) \<and>
   rows (buildGrid 22 22 demo_moved) \<le> key_row (key 2 2) \<and>
   (\<exists>s'. animate 100 (buildGrid 22 22 demo_moved) = Inr s' \<and> key 2 2 \<notin> set (dirtySet s')) \<and>
   processKey 100 True (key 2 2) ((buildGrid 22 22 demo_moved)\<lparr>grid := []\<rparr>, []) =
     Inr ((buildGrid 22 22 demo_moved)\<lparr>grid := []\<rparr>, [] @ [key 2 2])"
proof -
  have wf: "wf_grid (buildGrid 22 22 demo_moved)" by (rule buildGrid_wf)
  have "key 2 2 \<in> set (dirtySet demo_moved)" by (rule demo_moved_dirty) simp_all
  then have k: "key 2 2 \<in> set (dirtySet (buildGrid 22 22 demo_moved))" by simp
  have st: "rows (buildGrid 22 22 demo_moved) \<le> key_row (key 2 2)" by simp
  show ?thesis
    using wf k st stale_keys_dropped [OF wf, of 100 True "[]" "[]"] by blast
qed

subsection \<open>The scramble countdown\<close>

lemma tick_tracked:
  assumes "tracked s r c" "\<not> cell_gone now (grid s ! r ! c)"
  shows "tracked (animate_pure now s) r c"
  using assms by (simp add: tracked_def animate_pure_wf animate_pure_distinct tick_cell_dirty)

lemma tick_scramble:
  assumes "tracked s r c" "state (grid s ! r ! c) = Scramble"
  shows "tracked (animate_pure now s) r c"
    and "\<not> now - lastFrame s \<ge> FRAME_INTERVAL \<Longrightarrow>
           grid (animate_pure now s) ! r ! c = grid s ! r ! c"
    and "now - lastFrame s \<ge> FRAME_INTERVAL \<Longrightarrow> 1 < framesLeft (grid s ! r ! c) \<Longrightarrow>
           state (grid (animate_pure now s) ! r ! c) = Scramble \<and>
           framesLeft (grid (animate_pure now s) ! r ! c) = framesLeft (grid s ! r ! c) - 1 \<and>
           origSymbol (grid (animate_pure now s) ! r ! c) = origSymbol (grid s ! r ! c)"
    and "now - lastFrame s \<ge> FRAME_INTERVAL \<Longrightarrow> framesLeft (grid s ! r ! c) \<le> 1 \<Longrightarrow>
           state (grid (animate_pure now s) ! r ! c) = Settling \<and>
           symbol (grid (animate_pure now s) ! r ! c) = origSymbol (grid s ! r ! c) \<and>
           settleStart (grid (animate_pure now s) ! r ! c) = now \<and>
           color (grid (animate_pure now s) ! r ! c) = HOVER_COLOR"
proof -
  have t: "wf_grid s" "distinct (dirtySet s)" "r < rows s" "c < cols s" "c < 10000"
    "key r c \<in> set (dirtySet s)"
    using assms(1) by (simp_all add: tracked_def)
  have "\<not> cell_gone now (grid s ! r ! c)" using assms(2) by (simp add: cell_gone_def)
  with assms(1) show "tracked (animate_pure now s) r c" by (rule tick_tracked)
  obtain g where g: "grid (animate_pure now s) ! r ! c =
      cell_next now (now - lastFrame s \<ge> FRAME_INTERVAL) g (grid s ! r ! c)"
    using tick_cell_hit [OF t] by blast
  show "\<not> now - lastFrame s \<ge> FRAME_INTERVAL \<Longrightarrow>
           grid (animate_pure now s) ! r ! c = grid s ! r ! c"
    using assms(2) by (simp add: g cell_next_def)
  show "now - lastFrame s \<ge> FRAME_INTERVAL \<Longrightarrow> 1 < framesLeft (grid s ! r ! c) \<Longrightarrow>
           state (grid (animate_pure now s) ! r ! c) = Scramble \<and>
           framesLeft (grid (animate_pure now s) ! r ! c) = framesLeft (grid s ! r ! c) - 1 \<and>
           origSymbol (grid (animate_pure now s) ! r ! c) = origSymbol (grid s ! r ! c)"
    using assms(2) by (simp add: g cell_next_def)
  show "now - lastFrame s \<ge> FRAME_INTERVAL \<Longrightarrow> framesLeft (grid s ! r ! c) \<le> 1 \<Longrightarrow>
           state (grid (animate_pure now s) ! r ! c) = Settling \<and>
           symbol (grid (animate_pure now s) ! r ! c) = origSymbol (grid s ! r ! c) \<and>
           settleStart (grid (animate_pure now s) ! r ! c) = now \<and>
           color (grid (animate_pure now s) ! r ! c) = HOVER_COLOR"
    using assms(2) by (simp add: g cell_next_def)
qed

lemma scramble_run:
  assumes "tracked s r c" "state (grid s ! r ! c) = Scramble"
    and "int (scramble_ticks (lastFrame s) nows) < framesLeft (grid s ! r ! c)"
  shows "\<exists>s'. fold_err animate nows s = Inr s' \<and> tracked s' r c \<and>
           state (grid s' ! r ! c) = Scramble \<and>
           framesLeft (grid s' ! r ! c) =
             framesLeft (grid s ! r ! c) - int (scramble_ticks (lastFrame s) nows) \<and>
           origSymbol (grid s' ! r ! c) = origSymbol (grid s ! r ! c) \<and>
           lastFrame s' = last_tick (lastFrame s) nows"
  using assms
proof (induction nows arbitrary: s)
  case Nil
  then show ?case by simp
next
  case (Cons t ts)
  let ?s1 = "animate_pure t s"
  have wf: "wf_grid s" using Cons.prems(1) by (simp add: tracked_def)
  have run: "animate t s = Inr ?s1" using wf by (rule animate_wf)
  note ts = tick_scramble [OF Cons.prems(1) Cons.prems(2), of t]
  show ?case
  proof (cases "t - lastFrame s \<ge> FRAME_INTERVAL")
    case True
    then have lt: "int (Suc (scramble_ticks t ts)) < framesLeft (grid s ! r ! c)"
      using Cons.prems(3) by simp
    then have big: "1 < framesLeft (grid s ! r ! c)" by linarith
    note c1 = ts(3) [OF True big]
    have lf: "lastFrame ?s1 = t" using True by (simp add: animate_pure_lastFrame)
    have "int (scramble_ticks (lastFrame ?s1) ts) < framesLeft (grid ?s1 ! r ! c)"
      using lt c1 lf by simp
    from Cons.IH [OF ts(1) _ this] c1 obtain s' where
      "fold_err animate ts ?s1 = Inr s'" "tracked s' r c" "state (grid s' ! r ! c) = Scramble"
      "framesLeft (grid s' ! r ! c) =
         framesLeft (grid ?s1 ! r ! c) - int (scramble_ticks (lastFrame ?s1) ts)"
      "origSymbol (grid s' ! r ! c) = origSymbol (grid ?s1 ! r ! c)"
      "lastFrame s' = last_tick (lastFrame ?s1) ts"
      by blast
    then show ?thesis using run c1 lf True by simp
  next
    case False
    note c1 = ts(2) [OF False]
    have lf: "lastFrame ?s1 = lastFrame s" using False by (simp add: animate_pure_lastFrame)
    have "int (scramble_ticks (lastFrame ?s1) ts) < framesLeft (grid ?s1 ! r ! c)"
      using Cons.prems(3) False c1 lf by simp
    moreover have "state (grid ?s1 ! r ! c) = Scramble" using c1 Cons.prems(2) by simp
    ultimately obtain s' where
      "fold_err animate ts ?s1 = Inr s'" "tracked s' r c" "state (grid s' ! r ! c) = Scramble"
      "framesLeft (grid s' ! r ! c) =
         framesLeft (grid ?s1 ! r ! c) - int (scramble_ticks (lastFrame ?s1) ts)"
      "origSymbol (grid s' ! r ! c) = origSymbol (grid ?s1 ! r ! c)"
      "lastFrame s' = last_tick (lastFrame ?s1) ts"
      using Cons.IH [OF ts(1)] by blast
    then show ?thesis using run c1 lf False by simp
  qed
qed

lemma scramble_ticks_take: "scramble_ticks lf (take m ts) \<le> scramble_ticks lf ts"
proof (induction ts arbitrary: lf m)
  case Nil
  show ?case by simp
next
  case (Cons t ts)
  show ?case
  proof (cases m)
    case 0
    then show ?thesis by simp
  next
    case (Suc k)
    then show ?thesis using Cons.IH [of t k] Cons.IH [of lf k] by simp
  qed
qed

lemma fold_err_append:
  "fold_err f (xs @ ys) b = (case fold_err f xs b of Inl e \<Rightarrow> Inl e | Inr b' \<Rightarrow> fold_err f ys b')"
  by (induction xs arbitrary: b) (simp_all split: sum.splits)

lemma scramble_frames:
  assumes "wf_grid s" "distinct (dirtySet s)" "r < rows s" "c < cols s" "c < 10000"
    and "key r c \<in> set (dirtySet s)"
    and "state (grid s ! r ! c) = Scramble" "framesLeft (grid s ! r ! c) = n" "1 \<le> n"
    and "int (scramble_ticks (lastFrame s) nows) = n - 1"
    and "now - last_tick (lastFrame s) nows \<ge> FRAME_INTERVAL"
  shows "(\<forall>m\<le>length nows. \<exists>s1. fold_err animate (take m nows) s = Inr s1 \<and>
            state (grid s1 ! r ! c) = Scramble) \<and>
         (\<exists>s1 s2. fold_err animate nows s = Inr s1 \<and> animate now s1 = Inr s2 \<and>
            fold_err animate (nows @ [now]) s = Inr s2 \<and>
            lastFrame s1 = last_tick (lastFrame s) nows \<and>
            state (grid s1 ! r ! c) = Scramble \<and> framesLeft (grid s1 ! r ! c) = 1 \<and>
            state (grid s2 ! r ! c) = Settling \<and>
            symbol (grid s2 ! r ! c) = origSymbol (grid s ! r ! c) \<and>
            settleStart (grid s2 ! r ! c) = now)"
proof
  have tr: "tracked s r c" using assms by (simp add: tracked_def)
  show "\<forall>m\<le>length nows. \<exists>s1. fold_err animate (take m nows) s = Inr s1 \<and>
            state (grid s1 ! r ! c) = Scramble"
  proof (intro allI impI)
    fix m
    have "int (scramble_ticks (lastFrame s) (take m nows)) < framesLeft (grid s ! r ! c)"
      using scramble_ticks_take [of "lastFrame s" m nows] assms(8) assms(10) by linarith
    from scramble_run [OF tr assms(7) this]
    show "\<exists>s1. fold_err animate (take m nows) s = Inr s1 \<and> state (grid s1 ! r ! c) = Scramble"
      by blast
  qed
  have "int (scramble_ticks (lastFrame s) nows) < framesLeft (grid s ! r ! c)"
    using assms(8) assms(10) by linarith
  from scramble_run [OF tr assms(7) this] obtain s1 where
    s1: "fold_err animate nows s = Inr s1" "tracked s1 r c" "state (grid s1 ! r ! c) = Scramble"
      "framesLeft (grid s1 ! r ! c) =
         framesLeft (grid s ! r ! c) - int (scramble_ticks (lastFrame s) nows)"
      "origSymbol (grid s1 ! r ! c) = origSymbol (grid s ! r ! c)"
      "lastFrame s1 = last_tick (lastFrame s) nows"
    by blast
  have one: "framesLeft (grid s1 ! r ! c) = 1" using s1(4) assms(8) assms(10) by simp
  have tk: "now - lastFrame s1 \<ge> FRAME_INTERVAL" using assms(11) s1(6) by simp
  have run: "animate now s1 = Inr (animate_pure now s1)"
    using s1(2) by (intro animate_wf) (simp add: tracked_def)
  have app: "fold_err animate (nows @ [now]) s = Inr (animate_pure now s1)"
    using s1(1) run by (simp add: fold_err_append)
  have le: "framesLeft (grid s1 ! r ! c) \<le> 1" using one by simp
  note fin = tick_scramble(4) [OF s1(2) s1(3) tk le]
  show "\<exists>s1 s2. fold_err animate nows s = Inr s1 \<and> animate now s1 = Inr s2 \<and>
            fold_err animate (nows @ [now]) s = Inr s2 \<and>
            lastFrame s1 = last_tick (lastFrame s) nows \<and>
            state (grid s1 ! r ! c) = Scramble \<and> framesLeft (grid s1 ! r ! c) = 1 \<and>
            state (grid s2 ! r ! c) = Settling \<and>
            symbol (grid s2 ! r ! c) = origSymbol (grid s ! r ! c) \<and>
            settleStart (grid s2 ! r ! c) = now"
    using s1(1) run app s1(3) one fin s1(5) s1(6) by auto
qed

lemma demo_moved_lastFrame [simp]: "lastFrame demo_moved = 0"
  by (simp add: demo_moved_def demo_start_def)

lemma hexToRGB_HOVER: "hexToRGB HOVER_COLOR = (136, 136, 136)"
  by (simp add: hexToRGB_def HOVER_COLOR_def parseInt16_def is_white_def hexval_def js_and_def js_sar_def
      ToInt32_def)

lemma hexToRGB_BASE: "hexToRGB BASE_COLOR = (224, 224, 224)"
  by (simp add: hexToRGB_def BASE_COLOR_def parseInt16_def is_white_def hexval_def js_and_def js_sar_def
      ToInt32_def)

lemma Math_round_mono: "x \<le> y \<Longrightarrow> Math_round x \<le> Math_round y"
  by (simp add: Math_round_def floor_mono)

lemma Math_round_int [simp]: "Math_round (real_of_int k) = k"
  by (simp add: Math_round_def)

lemma easeOutCubic_range:
  assumes "0 \<le> t" "t \<le> 1"
  shows "0 \<le> easeOutCubic t" "easeOutCubic t \<le> 1"
proof -
  have "0 \<le> 1 - t" "1 - t \<le> 1" using assms by simp_all
  then have "(1 - t) ^ 3 \<le> 1" "0 \<le> (1 - t) ^ 3" by (simp_all add: power_le_one)
  then show "0 \<le> easeOutCubic t" "easeOutCubic t \<le> 1" by (simp_all add: easeOutCubic_def)
qed

lemma easeOutCubic_mono:
  assumes "t1 \<le> t2" "t2 \<le> 1"
  shows "easeOutCubic t1 \<le> easeOutCubic t2"
proof -
  have "0 \<le> 1 - t2" "1 - t2 \<le> 1 - t1" using assms by simp_all
  then have "(1 - t2) ^ 3 \<le> (1 - t1) ^ 3" by (intro power_mono) simp_all
  then show ?thesis by (simp add: easeOutCubic_def)
qed

lemma lerp_value_range:
  fixes e :: real
  assumes "0 \<le> e" "e \<le> 1"
  shows "136 \<le> Math_round (136 + 88 * e)" "Math_round (136 + 88 * e) \<le> 224"
proof -
  have "Math_round (real_of_int 136) \<le> Math_round (136 + 88 * e)"
    using assms by (intro Math_round_mono) simp
  then show "136 \<le> Math_round (136 + 88 * e)" by (simp only: Math_round_int)
  have "Math_round (136 + 88 * e) \<le> Math_round (real_of_int 224)"
    using assms by (intro Math_round_mono) simp
  then show "Math_round (136 + 88 * e) \<le> 224" by (simp only: Math_round_int)
qed

lemma lerp_channels:
  fixes e :: real
  assumes "0 \<le> e" "e \<le> 1"
  shows "hexToRGB (lerpColor HOVER_COLOR BASE_COLOR e) =
           (Math_round (136 + 88 * e), Math_round (136 + 88 * e), Math_round (136 + 88 * e))"
proof -
  note b = lerp_value_range [OF assms]
  have v: "0 \<le> Math_round (136 + 88 * e)" "Math_round (136 + 88 * e) < 256" using b by linarith+
  have "lerpColor HOVER_COLOR BASE_COLOR e =
          rgbToHex (Math_round (136 + 88 * e)) (Math_round (136 + 88 * e)) (Math_round (136 + 88 * e))"
    by (simp add: lerpColor_def hexToRGB_HOVER hexToRGB_BASE)
  then show ?thesis using hexToRGB_rgbToHex [OF v v v] by simp
qed

subsection \<open>Settling\<close>

lemma tick_settling:
  assumes "tracked s r c" "state (grid s ! r ! c) = Settling"
  shows "now - settleStart (grid s ! r ! c) < SETTLE_DURATION \<Longrightarrow>
           grid (animate_pure now s) ! r ! c =
             (grid s ! r ! c)\<lparr>color := lerpColor HOVER_COLOR BASE_COLOR
                (easeOutCubic (min ((now - settleStart (grid s ! r ! c)) / SETTLE_DURATION) 1))\<rparr> \<and>
           tracked (animate_pure now s) r c"
    and "SETTLE_DURATION \<le> now - settleStart (grid s ! r ! c) \<Longrightarrow>
           grid (animate_pure now s) ! r ! c =
             (grid s ! r ! c)\<lparr>state := Idle, color := BASE_COLOR, origSymbol := None\<rparr> \<and>
           key r c \<notin> set (dirtySet (animate_pure now s))"
proof -
  have t: "wf_grid s" "distinct (dirtySet s)" "r < rows s" "c < cols s" "c < 10000"
    "key r c \<in> set (dirtySet s)"
    using assms(1) by (simp_all add: tracked_def)
  obtain g where g: "grid (animate_pure now s) ! r ! c =
      cell_next now (now - lastFrame s \<ge> FRAME_INTERVAL) g (grid s ! r ! c)"
    using tick_cell_hit [OF t] by blast
  have m: "(1 \<le> min ((now - settleStart (grid s ! r ! c)) / SETTLE_DURATION) 1) =
           (SETTLE_DURATION \<le> now - settleStart (grid s ! r ! c))"
    by (simp add: SETTLE_DURATION_def)
  show "grid (animate_pure now s) ! r ! c =
             (grid s ! r ! c)\<lparr>color := lerpColor HOVER_COLOR BASE_COLOR
                (easeOutCubic (min ((now - settleStart (grid s ! r ! c)) / SETTLE_DURATION) 1))\<rparr> \<and>
           tracked (animate_pure now s) r c"
    if lt: "now - settleStart (grid s ! r ! c) < SETTLE_DURATION"
  proof
    have n1: "\<not> 1 \<le> min ((now - settleStart (grid s ! r ! c)) / SETTLE_DURATION) 1"
      using lt by (simp only: m not_le)
    show "grid (animate_pure now s) ! r ! c =
             (grid s ! r ! c)\<lparr>color := lerpColor HOVER_COLOR BASE_COLOR
                (easeOutCubic (min ((now - settleStart (grid s ! r ! c)) / SETTLE_DURATION) 1))\<rparr>"
      using assms(2) n1 by (simp add: g cell_next_def)
    have "\<not> cell_gone now (grid s ! r ! c)" using assms(2) n1 by (simp add: cell_gone_def)
    with assms(1) show "tracked (animate_pure now s) r c" by (rule tick_tracked)
  qed
  show "grid (animate_pure now s) ! r ! c =
             (grid s ! r ! c)\<lparr>state := Idle, color := BASE_COLOR, origSymbol := None\<rparr> \<and>
           key r c \<notin> set (dirtySet (animate_pure now s))"
    if ge: "SETTLE_DURATION \<le> now - settleStart (grid s ! r ! c)"
  proof
    have n1: "1 \<le> min ((now - settleStart (grid s ! r ! c)) / SETTLE_DURATION) 1"
      using ge by (simp only: m)
    show "grid (animate_pure now s) ! r ! c =
             (grid s ! r ! c)\<lparr>state := Idle, color := BASE_COLOR, origSymbol := None\<rparr>"
      using assms(2) n1 by (simp add: g cell_next_def)
    have "cell_gone now (grid s ! r ! c)" using assms(2) n1 by (simp add: cell_gone_def)
    then show "key r c \<notin> set (dirtySet (animate_pure now s))"
      using t by (simp add: tick_cell_dirty)
  qed
qed

lemma rgb_le_refl [simp]: "rgb_le p p"
  by (simp add: rgb_le_def)

lemma settle_color_bounds:
  fixes e :: real
  assumes "0 \<le> e" "e < SETTLE_DURATION"
  shows "rgb_le (hexToRGB HOVER_COLOR)
           (hexToRGB (lerpColor HOVER_COLOR BASE_COLOR (easeOutCubic (min (e / SETTLE_DURATION) 1))))"
    and "rgb_le (hexToRGB (lerpColor HOVER_COLOR BASE_COLOR (easeOutCubic (min (e / SETTLE_DURATION) 1))))
           (hexToRGB BASE_COLOR)"
proof -
  have t: "0 \<le> min (e / SETTLE_DURATION) 1" "min (e / SETTLE_DURATION) 1 \<le> 1"
    using assms by (simp_all add: SETTLE_DURATION_def)
  note r = easeOutCubic_range [OF t]
  note b = lerp_value_range [OF r]
  show "rgb_le (hexToRGB HOVER_COLOR)
           (hexToRGB (lerpColor HOVER_COLOR BASE_COLOR (easeOutCubic (min (e / SETTLE_DURATION) 1))))"
    using b by (simp add: lerp_channels [OF r] hexToRGB_HOVER rgb_le_def)
  show "rgb_le (hexToRGB (lerpColor HOVER_COLOR BASE_COLOR (easeOutCubic (min (e / SETTLE_DURATION) 1))))
           (hexToRGB BASE_COLOR)"
    using b by (simp add: lerp_channels [OF r] hexToRGB_BASE rgb_le_def)
qed

lemma settle_color_mono:
  fixes e1 e2 :: real
  assumes "0 \<le> e1" "e1 \<le> e2" "e2 < SETTLE_DURATION"
  shows "rgb_le (hexToRGB (lerpColor HOVER_COLOR BASE_COLOR (easeOutCubic (min (e1 / SETTLE_DURATION) 1))))
           (hexToRGB (lerpColor HOVER_COLOR BASE_COLOR (easeOutCubic (min (e2 / SETTLE_DURATION) 1))))"
proof -
  have t1: "0 \<le> min (e1 / SETTLE_DURATION) 1" "min (e1 / SETTLE_DURATION) 1 \<le> 1"
    using assms by (simp_all add: SETTLE_DURATION_def)
  have t2: "0 \<le> min (e2 / SETTLE_DURATION) 1" "min (e2 / SETTLE_DURATION) 1 \<le> 1"
    using assms by (simp_all add: SETTLE_DURATION_def)
  have le: "min (e1 / SETTLE_DURATION) 1 \<le> min (e2 / SETTLE_DURATION) 1"
    using assms by (simp add: SETTLE_DURATION_def)
  have "easeOutCubic (min (e1 / SETTLE_DURATION) 1) \<le> easeOutCubic (min (e2 / SETTLE_DURATION) 1)"
    using le t2(2) by (rule easeOutCubic_mono)
  then have "Math_round (136 + 88 * easeOutCubic (min (e1 / SETTLE_DURATION) 1)) \<le>
             Math_round (136 + 88 * easeOutCubic (min (e2 / SETTLE_DURATION) 1))"
    by (intro Math_round_mono) simp
  then show ?thesis
    by (simp add: lerp_channels [OF easeOutCubic_range [OF t1]]
        lerp_channels [OF easeOutCubic_range [OF t2]] rgb_le_def)
qed

lemma hover_le_base: "rgb_le (hexToRGB HOVER_COLOR) (hexToRGB BASE_COLOR)"
  by (simp add: hexToRGB_HOVER hexToRGB_BASE rgb_le_def)

lemma animate_pure_dirty_subset: "set (dirtySet (animate_pure now s)) \<subseteq> set (dirtySet s)"
  by (cases "now - lastFrame s \<ge> FRAME_INTERVAL")
    (auto simp add: animate_pure_def Let_def set_fold_delete)

lemma settle_color_value:
  fixes e :: real
  assumes "0 \<le> e" "e < SETTLE_DURATION"
  shows "hexToRGB (lerpColor HOVER_COLOR BASE_COLOR (easeOutCubic (min (e / SETTLE_DURATION) 1))) =
           (\<lfloor>136 + 88 * (1 - (1 - min (e / SETTLE_DURATION) 1) ^ 3) + 1 / 2\<rfloor>,
            \<lfloor>136 + 88 * (1 - (1 - min (e / SETTLE_DURATION) 1) ^ 3) + 1 / 2\<rfloor>,
            \<lfloor>136 + 88 * (1 - (1 - min (e / SETTLE_DURATION) 1) ^ 3) + 1 / 2\<rfloor>)"
proof -
  have t: "0 \<le> min (e / SETTLE_DURATION) 1" "min (e / SETTLE_DURATION) 1 \<le> 1"
    using assms by (simp_all add: SETTLE_DURATION_def)
  show ?thesis
    using lerp_channels [OF easeOutCubic_range [OF t]]
    by (simp add: Math_round_def easeOutCubic_def)
qed

lemma settling_frames:
  assumes tr: "tracked s r c"
    and st: "state (grid s ! r ! c) = Settling"
    and t1: "settleStart (grid s ! r ! c) \<le> now1" and t2: "now1 \<le> now2"
  shows "\<exists>s1 s2. animate now1 s = Inr s1 \<and> animate now2 s1 = Inr s2 \<and>
           (now1 - settleStart (grid s ! r ! c) < SETTLE_DURATION \<longrightarrow>
              state (grid s1 ! r ! c) = Settling \<and>
              color (grid s1 ! r ! c) =
                lerpColor HOVER_COLOR BASE_COLOR
                  (1 - (1 - min ((now1 - settleStart (grid s ! r ! c)) / SETTLE_DURATION) 1) ^ 3) \<and>
              hexToRGB (color (grid s1 ! r ! c)) =
                (\<lfloor>136 + 88 * (1 - (1 - min ((now1 - settleStart (grid s ! r ! c)) / SETTLE_DURATION) 1) ^ 3) + 1 / 2\<rfloor>,
                 \<lfloor>136 + 88 * (1 - (1 - min ((now1 - settleStart (grid s ! r ! c)) / SETTLE_DURATION) 1) ^ 3) + 1 / 2\<rfloor>,
                 \<lfloor>136 + 88 * (1 - (1 - min ((now1 - settleStart (grid s ! r ! c)) / SETTLE_DURATION) 1) ^ 3) + 1 / 2\<rfloor>) \<and>
              key r c \<in> set (dirtySet s1)) \<and>
           (SETTLE_DURATION \<le> now1 - settleStart (grid s ! r ! c) \<longrightarrow>
              state (grid s1 ! r ! c) = Idle \<and> color (grid s1 ! r ! c) = BASE_COLOR \<and>
              origSymbol (grid s1 ! r ! c) = None \<and> key r c \<notin> set (dirtySet s1)) \<and>
           (now2 - settleStart (grid s ! r ! c) < SETTLE_DURATION \<longrightarrow>
              state (grid s2 ! r ! c) = Settling \<and>
              color (grid s2 ! r ! c) =
                lerpColor HOVER_COLOR BASE_COLOR
                  (1 - (1 - min ((now2 - settleStart (grid s ! r ! c)) / SETTLE_DURATION) 1) ^ 3) \<and>
              hexToRGB (color (grid s2 ! r ! c)) =
                (\<lfloor>136 + 88 * (1 - (1 - min ((now2 - settleStart (grid s ! r ! c)) / SETTLE_DURATION) 1) ^ 3) + 1 / 2\<rfloor>,
                 \<lfloor>136 + 88 * (1 - (1 - min ((now2 - settleStart (grid s ! r ! c)) / SETTLE_DURATION) 1) ^ 3) + 1 / 2\<rfloor>,
                 \<lfloor>136 + 88 * (1 - (1 - min ((now2 - settleStart (grid s ! r ! c)) / SETTLE_DURATION) 1) ^ 3) + 1 / 2\<rfloor>) \<and>
              key r c \<in> set (dirtySet s2)) \<and>
           (SETTLE_DURATION \<le> now2 - settleStart (grid s ! r ! c) \<longrightarrow>
              state (grid s2 ! r ! c) = Idle \<and> color (grid s2 ! r ! c) = BASE_COLOR \<and>
              origSymbol (grid s2 ! r ! c) = None \<and> key r c \<notin> set (dirtySet s2)) \<and>
           rgb_le (hexToRGB HOVER_COLOR) (hexToRGB (color (grid s1 ! r ! c))) \<and>
           rgb_le (hexToRGB (color (grid s1 ! r ! c))) (hexToRGB (color (grid s2 ! r ! c))) \<and>
           rgb_le (hexToRGB (color (grid s2 ! r ! c))) (hexToRGB BASE_COLOR) \<and>
           hexToRGB HOVER_COLOR = (136, 136, 136) \<and> hexToRGB BASE_COLOR = (224, 224, 224)"
proof -
  let ?x = "grid s ! r ! c"
  let ?s1 = "animate_pure now1 s"
  let ?s2 = "animate_pure now2 ?s1"
  have wf: "wf_grid s" and bd: "r < rows s" "c < cols s" using tr by (simp_all add: tracked_def)
  have run1: "animate now1 s = Inr ?s1" using wf by (rule animate_wf)
  have wf1: "wf_grid ?s1" using wf by (rule animate_pure_wf)
  have run2: "animate now2 ?s1 = Inr ?s2" using wf1 by (rule animate_wf)
  have e1: "0 \<le> now1 - settleStart ?x" and e12: "now1 - settleStart ?x \<le> now2 - settleStart ?x"
    using t1 t2 by simp_all
  have e2: "0 \<le> now2 - settleStart ?x" using e1 e12 by linarith
  note ts = tick_settling [OF tr st]
  have first: "state (grid ?s1 ! r ! c) = Settling \<and>
      color (grid ?s1 ! r ! c) =
        lerpColor HOVER_COLOR BASE_COLOR
          (1 - (1 - min ((now1 - settleStart ?x) / SETTLE_DURATION) 1) ^ 3) \<and>
      hexToRGB (color (grid ?s1 ! r ! c)) =
        (\<lfloor>136 + 88 * (1 - (1 - min ((now1 - settleStart ?x) / SETTLE_DURATION) 1) ^ 3) + 1 / 2\<rfloor>,
         \<lfloor>136 + 88 * (1 - (1 - min ((now1 - settleStart ?x) / SETTLE_DURATION) 1) ^ 3) + 1 / 2\<rfloor>,
         \<lfloor>136 + 88 * (1 - (1 - min ((now1 - settleStart ?x) / SETTLE_DURATION) 1) ^ 3) + 1 / 2\<rfloor>) \<and>
      key r c \<in> set (dirtySet ?s1)"
    if lt: "now1 - settleStart ?x < SETTLE_DURATION"
  proof -
    note a = ts(1) [OF lt]
    have c1: "grid ?s1 ! r ! c = ?x\<lparr>color := lerpColor HOVER_COLOR BASE_COLOR
                (easeOutCubic (min ((now1 - settleStart ?x) / SETTLE_DURATION) 1))\<rparr>"
      and tr1: "tracked ?s1 r c" using a by simp_all
    have k1: "key r c \<in> set (dirtySet ?s1)" using tr1 by (simp add: tracked_def)
    show ?thesis using st k1 settle_color_value [OF e1 lt] by (simp add: c1 easeOutCubic_def)
  qed
  have done1: "state (grid ?s1 ! r ! c) = Idle \<and> color (grid ?s1 ! r ! c) = BASE_COLOR \<and>
      origSymbol (grid ?s1 ! r ! c) = None \<and> key r c \<notin> set (dirtySet ?s1)"
    if ge: "SETTLE_DURATION \<le> now1 - settleStart ?x"
    using ts(2) [OF ge] by simp
  have second: "state (grid ?s2 ! r ! c) = Settling \<and>
      color (grid ?s2 ! r ! c) =
        lerpColor HOVER_COLOR BASE_COLOR
          (1 - (1 - min ((now2 - settleStart ?x) / SETTLE_DURATION) 1) ^ 3) \<and>
      hexToRGB (color (grid ?s2 ! r ! c)) =
        (\<lfloor>136 + 88 * (1 - (1 - min ((now2 - settleStart ?x) / SETTLE_DURATION) 1) ^ 3) + 1 / 2\<rfloor>,
         \<lfloor>136 + 88 * (1 - (1 - min ((now2 - settleStart ?x) / SETTLE_DURATION) 1) ^ 3) + 1 / 2\<rfloor>,
         \<lfloor>136 + 88 * (1 - (1 - min ((now2 - settleStart ?x) / SETTLE_DURATION) 1) ^ 3) + 1 / 2\<rfloor>) \<and>
      key r c \<in> set (dirtySet ?s2)"
    if lt2: "now2 - settleStart ?x < SETTLE_DURATION"
  proof -
    have lt: "now1 - settleStart ?x < SETTLE_DURATION" using lt2 e12 by linarith
    note a = ts(1) [OF lt]
    have c1: "grid ?s1 ! r ! c = ?x\<lparr>color := lerpColor HOVER_COLOR BASE_COLOR
                (easeOutCubic (min ((now1 - settleStart ?x) / SETTLE_DURATION) 1))\<rparr>"
      and tr1: "tracked ?s1 r c" using a by simp_all
    have st1: "state (grid ?s1 ! r ! c) = Settling" using st by (simp add: c1)
    have ss1: "settleStart (grid ?s1 ! r ! c) = settleStart ?x" by (simp add: c1)
    note b = tick_settling(1) [OF tr1 st1, of now2, unfolded ss1, OF lt2]
    have c2: "grid ?s2 ! r ! c = (grid ?s1 ! r ! c)\<lparr>color := lerpColor HOVER_COLOR BASE_COLOR
                (easeOutCubic (min ((now2 - settleStart ?x) / SETTLE_DURATION) 1))\<rparr>"
      and tr2: "tracked ?s2 r c" using b by simp_all
    have k2: "key r c \<in> set (dirtySet ?s2)" using tr2 by (simp add: tracked_def)
    show ?thesis using st1 k2 settle_color_value [OF e2 lt2] by (simp add: c2 easeOutCubic_def)
  qed
  have done2: "state (grid ?s2 ! r ! c) = Idle \<and> color (grid ?s2 ! r ! c) = BASE_COLOR \<and>
      origSymbol (grid ?s2 ! r ! c) = None \<and> key r c \<notin> set (dirtySet ?s2)"
    if ge2: "SETTLE_DURATION \<le> now2 - settleStart ?x"
  proof (cases "SETTLE_DURATION \<le> now1 - settleStart ?x")
    case True
    note a = ts(2) [OF True]
    have c1: "grid ?s1 ! r ! c = ?x\<lparr>state := Idle, color := BASE_COLOR, origSymbol := None\<rparr>"
      and k1: "key r c \<notin> set (dirtySet ?s1)" using a by simp_all
    have rc1: "r < rows ?s1" "c < cols ?s1" using bd by simp_all
    have c2: "grid ?s2 ! r ! c = grid ?s1 ! r ! c" by (rule tick_cell_miss [OF wf1 rc1 k1])
    have k2: "key r c \<notin> set (dirtySet ?s2)"
      using k1 animate_pure_dirty_subset [of now2 ?s1] by auto
    show ?thesis using c1 c2 k2 by simp
  next
    case False
    then have lt: "now1 - settleStart ?x < SETTLE_DURATION" by simp
    note a = ts(1) [OF lt]
    have c1: "grid ?s1 ! r ! c = ?x\<lparr>color := lerpColor HOVER_COLOR BASE_COLOR
                (easeOutCubic (min ((now1 - settleStart ?x) / SETTLE_DURATION) 1))\<rparr>"
      and tr1: "tracked ?s1 r c" using a by simp_all
    have st1: "state (grid ?s1 ! r ! c) = Settling" using st by (simp add: c1)
    have ss1: "settleStart (grid ?s1 ! r ! c) = settleStart ?x" by (simp add: c1)
    note b = tick_settling(2) [OF tr1 st1, of now2, unfolded ss1, OF ge2]
    show ?thesis using b by simp
  qed
  have h1: "rgb_le (hexToRGB HOVER_COLOR) (hexToRGB (color (grid ?s1 ! r ! c)))"
  proof (cases "SETTLE_DURATION \<le> now1 - settleStart ?x")
    case True
    then show ?thesis using done1 hover_le_base by simp
  next
    case False
    then have lt: "now1 - settleStart ?x < SETTLE_DURATION" by simp
    show ?thesis using first [OF lt] settle_color_bounds(1) [OF e1 lt]
      by (simp add: easeOutCubic_def)
  qed
  have h3: "rgb_le (hexToRGB (color (grid ?s2 ! r ! c))) (hexToRGB BASE_COLOR)"
  proof (cases "SETTLE_DURATION \<le> now2 - settleStart ?x")
    case True
    then show ?thesis using done2 by simp
  next
    case False
    then have lt: "now2 - settleStart ?x < SETTLE_DURATION" by simp
    show ?thesis using second [OF lt] settle_color_bounds(2) [OF e2 lt]
      by (simp add: easeOutCubic_def)
  qed
  have h2: "rgb_le (hexToRGB (color (grid ?s1 ! r ! c))) (hexToRGB (color (grid ?s2 ! r ! c)))"
  proof (cases "SETTLE_DURATION \<le> now2 - settleStart ?x")
    case True
    note d2 = done2 [OF True]
    show ?thesis
    proof (cases "SETTLE_DURATION \<le> now1 - settleStart ?x")
      case True
      then show ?thesis using done1 d2 by simp
    next
      case False
      then have lt: "now1 - settleStart ?x < SETTLE_DURATION" by simp
      show ?thesis using first [OF lt] d2 settle_color_bounds(2) [OF e1 lt]
        by (simp add: easeOutCubic_def)
    qed
  next
    case False
    then have lt2: "now2 - settleStart ?x < SETTLE_DURATION" by simp
    then have lt: "now1 - settleStart ?x < SETTLE_DURATION" using e12 by linarith
    show ?thesis using first [OF lt] second [OF lt2] settle_color_mono [OF e1 e12 lt2]
      by (simp add: easeOutCubic_def)
  qed
  show ?thesis
    using run1 run2 first done1 second done2 h1 h2 h3 hexToRGB_HOVER hexToRGB_BASE by blast
qed

subsection \<open>Runs of frames and columns from 10000 on\<close>

lemma tick_high:
  assumes "wf_grid s" "r < rows s" "c < cols s" "10000 \<le> c"
  shows "grid (animate_pure now s) ! r ! c = grid s ! r ! c"
proof -
  have "\<forall>k\<in>set (dirtySet s). \<not> (key_row k = r \<and> key_col k = c)"
  proof (intro ballI notI)
    fix k
    assume "key_row k = r \<and> key_col k = c"
    then have "c < 10000" using key_col_less [of k] by simp
    with assms(4) show False by simp
  qed
  then show ?thesis by (rule animate_pure_other [OF assms(1) assms(2) assms(3)])
qed

lemma frames_high:
  assumes "wf_grid s" "r < rows s" "c < cols s" "10000 \<le> c"
  shows "grid (fold animate_pure nows s) ! r ! c = grid s ! r ! c"
  using assms
proof (induction nows arbitrary: s)
  case Nil
  show ?case by simp
next
  case (Cons t ts)
  have wf1: "wf_grid (animate_pure t s)" using Cons.prems(1) by (rule animate_pure_wf)
  have rc: "r < rows (animate_pure t s)" "c < cols (animate_pure t s)"
    using Cons.prems by simp_all
  have "grid (fold animate_pure ts (animate_pure t s)) ! r ! c = grid (animate_pure t s) ! r ! c"
    by (rule Cons.IH [OF wf1 rc Cons.prems(4)])
  then show ?case using tick_high [OF Cons.prems] by simp
qed

lemma fold_animate_wf: "wf_grid s \<Longrightarrow> wf_grid (fold animate_pure nows s)"
  by (induction nows arbitrary: s) (simp_all add: animate_pure_wf)

lemma fold_animate_frame [simp]:
  "rows (fold animate_pure nows s) = rows s" "cols (fold animate_pure nows s) = cols s"
  by (induction nows arbitrary: s; simp)+

lemma fold_err_animate: "wf_grid s \<Longrightarrow> fold_err animate nows s = Inr (fold animate_pure nows s)"
  by (induction nows arbitrary: s) (simp_all add: animate_wf animate_pure_wf)

lemma reachable_frames: "reachable s \<Longrightarrow> reachable (fold animate_pure nows s)"
proof (induction nows arbitrary: s)
  case Nil
  then show ?case by simp
next
  case (Cons t ts)
  have "wf_grid s" using reachable_inv [OF Cons.prems] by simp
  then have "animate t s = Inr (animate_pure t s)" by (rule animate_wf)
  with Cons.prems have "reachable (animate_pure t s)" by (rule reachable.frame)
  then show ?case using Cons.IH by simp
qed

lemma move_low_covered:
  assumes "wf_grid s" "low_covered s"
  shows "low_covered (fold visit_pure offs s)"
  unfolding low_covered_def
proof (intro allI impI)
  fix r c
  assume rc: "r < rows (fold visit_pure offs s)" "c < cols (fold visit_pure offs s)"
    and lo: "c < 10000"
    and ni: "state (grid (fold visit_pure offs s) ! r ! c) \<noteq> Idle"
  have rc': "r < rows s" "c < cols s" using rc by simp_all
  show "key r c \<in> set (dirtySet (fold visit_pure offs s))"
  proof (cases "in_block offs s r c \<and> state (grid s ! r ! c) = Idle")
    case True
    then show ?thesis using fold_visit_dirty_hit [OF assms(1) rc'] by blast
  next
    case False
    then have "grid (fold visit_pure offs s) ! r ! c = grid s ! r ! c"
      by (rule fold_visit_other [OF assms(1) rc'])
    then have "state (grid s ! r ! c) \<noteq> Idle" using ni by simp
    then have "key r c \<in> set (dirtySet s)" using assms(2) rc' lo by (simp add: low_covered_def)
    then show ?thesis using fold_visit_dirty_mono [of s offs] by auto
  qed
qed

lemma tick_low_covered:
  assumes "wf_grid s" "distinct (dirtySet s)" "low_covered s"
  shows "low_covered (animate_pure now s)"
  unfolding low_covered_def
proof (intro allI impI)
  fix r c
  assume rc: "r < rows (animate_pure now s)" "c < cols (animate_pure now s)"
    and lo: "c < 10000"
    and ni: "state (grid (animate_pure now s) ! r ! c) \<noteq> Idle"
  have rc': "r < rows s" "c < cols s" "c < 10000" using rc lo by simp_all
  show "key r c \<in> set (dirtySet (animate_pure now s))"
  proof (cases "key r c \<in> set (dirtySet s)")
    case True
    then obtain g where "grid (animate_pure now s) ! r ! c =
        cell_next now (now - lastFrame s \<ge> FRAME_INTERVAL) g (grid s ! r ! c)"
      using tick_cell_hit [OF assms(1) assms(2) rc'] by blast
    then have "\<not> cell_gone now (grid s ! r ! c)" using ni by (simp add: cell_gone_iff [symmetric])
    then show ?thesis using True assms rc' by (simp add: tick_cell_dirty)
  next
    case False
    then have "grid (animate_pure now s) ! r ! c = grid s ! r ! c"
      by (rule tick_cell_miss [OF assms(1) rc'(1) rc'(2)])
    then have "state (grid s ! r ! c) \<noteq> Idle" using ni by simp
    then have "key r c \<in> set (dirtySet s)" using assms(3) rc' by (simp add: low_covered_def)
    then show ?thesis using False by simp
  qed
qed

lemma move_high_quiet:
  assumes "wf_grid s" "high_quiet s"
  shows "high_quiet (fold visit_pure offs s)"
  unfolding high_quiet_def
proof (intro allI impI)
  fix r c
  assume rc: "r < rows (fold visit_pure offs s)" "c < cols (fold visit_pure offs s)"
    and hi: "10000 \<le> c"
  have rc': "r < rows s" "c < cols s" using rc by simp_all
  show "state (grid (fold visit_pure offs s) ! r ! c) \<noteq> Settling"
  proof (cases "in_block offs s r c \<and> state (grid s ! r ! c) = Idle")
    case True
    then obtain n where "grid (fold visit_pure offs s) ! r ! c = armed (rnd s n) (grid s ! r ! c)"
      using fold_visit_armed [OF assms(1) rc'] by blast
    then show ?thesis by simp
  next
    case False
    then have "grid (fold visit_pure offs s) ! r ! c = grid s ! r ! c"
      by (rule fold_visit_other [OF assms(1) rc'])
    then show ?thesis using assms(2) rc' hi by (simp add: high_quiet_def)
  qed
qed

lemma tick_high_quiet:
  assumes "wf_grid s" "high_quiet s"
  shows "high_quiet (animate_pure now s)"
  unfolding high_quiet_def
proof (intro allI impI)
  fix r c
  assume rc: "r < rows (animate_pure now s)" "c < cols (animate_pure now s)"
    and hi: "10000 \<le> c"
  have rc': "r < rows s" "c < cols s" using rc by simp_all
  have "grid (animate_pure now s) ! r ! c = grid s ! r ! c"
    by (rule tick_high [OF assms(1) rc' hi])
  then show "state (grid (animate_pure now s) ! r ! c) \<noteq> Settling"
    using assms(2) rc' hi by (simp add: high_quiet_def)
qed

lemma buildGrid_low_high: "low_covered (buildGrid w h s)" "high_quiet (buildGrid w h s)"
  by (simp_all add: low_covered_def high_quiet_def buildGrid_cell)

lemma low_high_mouse [simp]:
  "low_covered (s\<lparr>mouseCol := a, mouseRow := b\<rparr>) = low_covered s"
  "high_quiet (s\<lparr>mouseCol := a, mouseRow := b\<rparr>) = high_quiet s"
  "low_covered (onMouseLeave s) = low_covered s"
  "high_quiet (onMouseLeave s) = high_quiet s"
  by (simp_all add: low_covered_def high_quiet_def)

lemma reachable_low_high: "reachable s \<Longrightarrow> low_covered s \<and> high_quiet s"
proof (induction rule: reachable.induct)
  case (start w h f)
  show ?case by (simp add: buildGrid_low_high)
next
  case (move s mx my s')
  let ?s0 = "s\<lparr>mouseCol := \<lfloor>mx / CELL_SIZE\<rfloor>, mouseRow := \<lfloor>my / CELL_SIZE\<rfloor>\<rparr>"
  have wf: "wf_grid s" using reachable_inv [OF move.hyps(1)] by simp
  have s': "s' = (if \<lfloor>mx / CELL_SIZE\<rfloor> = mouseCol s \<and> \<lfloor>my / CELL_SIZE\<rfloor> = mouseRow s then s
                  else fold visit_pure offsets ?s0)"
    using move.hyps(2) wf by (simp add: onMouseMove_wf)
  show ?case
  proof (cases "\<lfloor>mx / CELL_SIZE\<rfloor> = mouseCol s \<and> \<lfloor>my / CELL_SIZE\<rfloor> = mouseRow s")
    case True
    then show ?thesis using s' move.IH by simp
  next
    case False
    have e: "s' = fold visit_pure offsets ?s0" by (subst s') (simp only: False if_False)
    have wf0: "wf_grid ?s0" using wf by simp
    have "low_covered s'" unfolding e using wf0 move.IH by (intro move_low_covered) simp_all
    moreover have "high_quiet s'" unfolding e using wf0 move.IH by (intro move_high_quiet) simp_all
    ultimately show ?thesis by simp
  qed
next
  case (leave s)
  then show ?case by simp
next
  case (resize s w h)
  show ?case by (simp add: buildGrid_low_high)
next
  case (frame s now s')
  note inv = reachable_inv [OF frame.hyps(1)]
  have wf: "wf_grid s" and di: "distinct (dirtySet s)" using inv by simp_all
  have e: "s' = animate_pure now s" using frame.hyps(2) wf by (simp add: animate_wf)
  show ?case unfolding e using frame.IH wf di
    by (simp add: tick_low_covered tick_high_quiet)
qed

lemma wide_moved_lastFrame [simp]: "lastFrame wide_moved = 0"
  by (simp add: wide_moved_def wide_start_def)

lemma wide_moved_high:
  "grid wide_moved ! 0 ! 10000 = armed 0 (grid wide_start ! 0 ! 10000)"
  "key 0 10000 \<in> set (dirtySet wide_moved)"
proof -
  let ?s0 = "wide_start\<lparr>mouseCol := 9999, mouseRow := 0\<rparr>"
  have wf: "wf_grid ?s0" using buildGrid_wf [of 219979 22] by (simp add: wide_start_def)
  have rc: "0 < rows ?s0" "10000 < cols ?s0" by simp_all
  have ib: "in_block offsets ?s0 0 10000" by (simp add: in_block_offsets)
  have idle: "state (grid ?s0 ! 0 ! 10000) = Idle" by (simp add: wide_start_def buildGrid_cell)
  from fold_visit_armed [OF wf rc ib idle]
  show "grid wide_moved ! 0 ! 10000 = armed 0 (grid wide_start ! 0 ! 10000)"
    by (simp add: wide_moved_def wide_start_def)
  from fold_visit_dirty_hit [OF wf rc ib idle]
  show "key 0 10000 \<in> set (dirtySet wide_moved)" by (simp add: wide_moved_def)
qed

lemma lerp_at_seven_eighths: "lerpColor HOVER_COLOR BASE_COLOR (7 / 8) = ''#d5d5d5''"
proof -
  have "Math_round (136 + 88 * (7 / 8)) = 213" by (simp add: Math_round_def)
  then have "lerpColor HOVER_COLOR BASE_COLOR (7 / 8) = rgbToHex 213 213 213"
    by (simp add: lerpColor_def hexToRGB_HOVER hexToRGB_BASE)
  also have "\<dots> = ''#d5d5d5''"
    by (simp add: rgbToHex_def toString16_def toString16_nat.simps hexdigit_def js_or_def js_shl_def
        ToInt32_def)
  finally show ?thesis .
qed

lemma hexToRGB_d5: "hexToRGB ''#d5d5d5'' = (213, 213, 213)"
  by (simp add: hexToRGB_def parseInt16_def is_white_def hexval_def js_and_def js_sar_def ToInt32_def)

lemma settle_demo_reachable: "reachable settle_demo"
  unfolding settle_demo_def using demo_moved_reachable by (rule reachable_frames)

lemma settle_demo_frame [simp]: "rows settle_demo = 3" "cols settle_demo = 3"
  by (simp_all add: settle_demo_def)

lemma settle_demo_cell:
  "state (grid settle_demo ! 0 ! 0) = Settling" "settleStart (grid settle_demo ! 0 ! 0) = 700"
proof -
  let ?nows = "[100, 200, 300, 400, 500, 600] :: real list"
  let ?s1 = "fold animate_pure ?nows demo_moved"
  note inv = reachable_inv [OF demo_moved_reachable]
  have k: "key 0 0 \<in> set (dirtySet demo_moved)" by (rule demo_moved_dirty) simp_all
  have tr: "tracked demo_moved 0 0" using inv k by (simp add: tracked_def)
  have st: "state (grid demo_moved ! 0 ! 0) = Scramble" by (simp add: demo_moved_cell)
  have fl: "framesLeft (grid demo_moved ! 0 ! 0) = 7"
    by (simp add: demo_moved_cell armed_def SCRAMBLE_FRAMES_def)
  have tc: "scramble_ticks (lastFrame demo_moved) ?nows = 6" by (simp add: FRAME_INTERVAL_def)
  have lt: "last_tick (lastFrame demo_moved) ?nows = 600" by (simp add: FRAME_INTERVAL_def)
  have "int (scramble_ticks (lastFrame demo_moved) ?nows) < framesLeft (grid demo_moved ! 0 ! 0)"
    unfolding tc fl by simp
  from scramble_run [OF tr st this] obtain s' where
    s': "fold_err animate ?nows demo_moved = Inr s'" "tracked s' 0 0"
      "state (grid s' ! 0 ! 0) = Scramble"
      "framesLeft (grid s' ! 0 ! 0) =
         framesLeft (grid demo_moved ! 0 ! 0) - int (scramble_ticks (lastFrame demo_moved) ?nows)"
      "lastFrame s' = last_tick (lastFrame demo_moved) ?nows"
    by blast
  have "fold_err animate ?nows demo_moved = Inr ?s1"
    using inv by (intro fold_err_animate) simp
  then have e: "s' = ?s1" using s'(1) by simp
  have le: "framesLeft (grid s' ! 0 ! 0) \<le> 1" unfolding s'(4) tc fl by simp
  have tk: "700 - lastFrame s' \<ge> FRAME_INTERVAL" unfolding s'(5) lt by (simp add: FRAME_INTERVAL_def)
  note fin = tick_scramble(4) [OF s'(2) s'(3) tk le]
  have "settle_demo = animate_pure 700 s'" unfolding e by (simp add: settle_demo_def)
  then show "state (grid settle_demo ! 0 ! 0) = Settling"
    "settleStart (grid settle_demo ! 0 ! 0) = 700"
    using fin by simp_all
qed

subsection \<open>Scramble termination\<close>

text \<open>
  Claim C4 as stated fails for a cell in a column from 10000 on. On the grid of a canvas
  219979 pixels wide and 22 pixels high, a pointer move to the pixel (219978, 5) arms the
  cell in row 0 and column 10000 with a countdown of 6 and adds its key 10000 to the dirty
  set. Every tick decodes that key to row 1 and column 0, so no tick reaches the armed cell
  (lemma \<open>frames_high\<close>, for every sequence of frames): after six frames that are all scramble
  ticks it is still in state \<open>Scramble\<close> with its countdown at 6.
\<close>

theorem wide_cell_never_settles:
  "onMouseMove 219978 5 wide_start = Inr wide_moved \<and>
   0 < rows wide_moved \<and> 10000 < cols wide_moved \<and>
   key 0 10000 \<in> set (dirtySet wide_moved) \<and>
   state (grid wide_moved ! 0 ! 10000) = Scramble \<and>
   framesLeft (grid wide_moved ! 0 ! 10000) = 6 \<and>
   scramble_ticks (lastFrame wide_moved) [100, 200, 300, 400, 500, 600] = 6 \<and>
   fold_err animate [100, 200, 300, 400, 500, 600] wide_moved = Inr wide_run \<and>
   state (grid wide_run ! 0 ! 10000) = Scramble \<and>
   framesLeft (grid wide_run ! 0 ! 10000) = 6"
proof -
  have wf: "wf_grid wide_moved" using reachable_inv [OF wide_moved_reachable] by simp
  have run: "fold_err animate [100, 200, 300, 400, 500, 600] wide_moved = Inr wide_run"
    unfolding wide_run_def using wf by (rule fold_err_animate)
  have same: "grid wide_run ! 0 ! 10000 = grid wide_moved ! 0 ! 10000"
    unfolding wide_run_def by (rule frames_high [OF wf]) simp_all
  have st: "state (grid wide_moved ! 0 ! 10000) = Scramble" by (simp add: wide_moved_high)
  have fl: "framesLeft (grid wide_moved ! 0 ! 10000) = 6"
    by (simp add: wide_moved_high armed_def SCRAMBLE_FRAMES_def wide_start_def buildGrid_cell
        new_cell_def)
  have tc: "scramble_ticks (lastFrame wide_moved) [100, 200, 300, 400, 500, 600] = 6"
    by (simp add: FRAME_INTERVAL_def)
  show ?thesis using wide_move wide_moved_high(2) st fl tc run same by simp
qed

text \<open>
  Claim C4, amended: in every state the engine reaches, a cell in a column below 10000 that
  is in state \<open>Scramble\<close> with countdown \<open>n \<ge> 1\<close> stays in \<open>Scramble\<close> after every prefix of a
  frame sequence that holds \<open>n - 1\<close> scramble ticks, however many frames the sequence has, and
  after the whole sequence its countdown is 1; the next frame that is a scramble tick, the
  \<open>n\<close>-th one, takes it to
  \<open>Settling\<close> with its glyph restored to the original glyph and its settle start equal to the
  time stamp of that frame. No frame of the sequence raises an error.
\<close>

theorem scramble_termination:
  assumes "reachable s" "r < rows s" "c < cols s" "c < 10000"
    and "state (grid s ! r ! c) = Scramble" "framesLeft (grid s ! r ! c) = n" "1 \<le> n"
    and "int (scramble_ticks (lastFrame s) nows) = n - 1"
    and "now - last_tick (lastFrame s) nows \<ge> FRAME_INTERVAL"
  shows "(\<forall>m\<le>length nows. \<exists>s1. fold_err animate (take m nows) s = Inr s1 \<and>
            state (grid s1 ! r ! c) = Scramble) \<and>
         (\<exists>s1 s2. fold_err animate nows s = Inr s1 \<and> animate now s1 = Inr s2 \<and>
            fold_err animate (nows @ [now]) s = Inr s2 \<and>
            lastFrame s1 = last_tick (lastFrame s) nows \<and>
            state (grid s1 ! r ! c) = Scramble \<and> framesLeft (grid s1 ! r ! c) = 1 \<and>
            state (grid s2 ! r ! c) = Settling \<and>
            symbol (grid s2 ! r ! c) = origSymbol (grid s ! r ! c) \<and>
            settleStart (grid s2 ! r ! c) = now)"
proof -
  note inv = reachable_inv [OF assms(1)]
  have wf: "wf_grid s" and di: "distinct (dirtySet s)" using inv by simp_all
  have "low_covered s" using reachable_low_high [OF assms(1)] by simp
  then have k: "key r c \<in> set (dirtySet s)"
    using assms(2) assms(3) assms(4) assms(5) by (simp add: low_covered_def)
  show ?thesis
    by (rule scramble_frames [OF wf di assms(2) assms(3) assms(4) k assms(5) assms(6)
          assms(7) assms(8) assms(9)])
qed

theorem scramble_termination_witness:
  "reachable demo_moved \<and> (0::nat) < rows demo_moved \<and> (0::nat) < cols demo_moved \<and>
   state (grid demo_moved ! 0 ! 0) = Scramble \<and> framesLeft (grid demo_moved ! 0 ! 0) = 7 \<and>
   int (scramble_ticks (lastFrame demo_moved) [100, 110, 200, 300, 400, 500, 600]) = 7 - 1 \<and>
   700 - last_tick (lastFrame demo_moved) [100, 110, 200, 300, 400, 500, 600] \<ge> FRAME_INTERVAL \<and>
   (\<exists>s1 s2. fold_err animate [100, 110, 200, 300, 400, 500, 600] demo_moved = Inr s1 \<and>
      animate 700 s1 = Inr s2 \<and>
      state (grid s1 ! 0 ! 0) = Scramble \<and> framesLeft (grid s1 ! 0 ! 0) = 1 \<and>
      state (grid s2 ! 0 ! 0) = Settling \<and>
      symbol (grid s2 ! 0 ! 0) = origSymbol (grid demo_moved ! 0 ! 0) \<and>
      settleStart (grid s2 ! 0 ! 0) = 700)"
proof -
  have rc: "(0::nat) < rows demo_moved" "(0::nat) < cols demo_moved" "(0::nat) < 10000" by simp_all
  have st: "state (grid demo_moved ! 0 ! 0) = Scramble" by (simp add: demo_moved_cell)
  have fl: "framesLeft (grid demo_moved ! 0 ! 0) = 7"
    by (simp add: demo_moved_cell armed_def SCRAMBLE_FRAMES_def)
  have n1: "(1::int) \<le> 7" by simp
  have tc: "int (scramble_ticks (lastFrame demo_moved) [100, 110, 200, 300, 400, 500, 600]) = 7 - 1"
    by (simp add: FRAME_INTERVAL_def)
  have lt: "700 - last_tick (lastFrame demo_moved) [100, 110, 200, 300, 400, 500, 600] \<ge> FRAME_INTERVAL"
    by (simp add: FRAME_INTERVAL_def)
  show ?thesis
    using demo_moved_reachable rc st fl tc lt
      scramble_termination [OF demo_moved_reachable rc st fl n1 tc lt]
    by blast
qed

subsection \<open>Settling convergence\<close>

text \<open>
  Claim C5: in every state the engine reaches, for a cell in state \<open>Settling\<close> and two
  successive frames with time stamps \<open>now1 \<le> now2\<close>, not before the settle start, both frames
  return normally and for each of them: if the frame comes earlier than \<open>SETTLE_DURATION\<close> after
  the settle start, the cell keeps settling with its key in the dirty set, its colour is the
  interpolation between hover and base tone at the eased fraction \<open>1 - (1 - t)\<^sup>3\<close> of the clamped
  fraction \<open>t\<close>, and each of its three channels is \<open>136 + 88 * (1 - (1 - t)\<^sup>3)\<close> rounded to the
  nearest integer, 136 being the channel of the hover tone and 224 that of the base tone; if
  the frame comes at or after \<open>SETTLE_DURATION\<close>, the cell is \<open>Idle\<close> with exactly the base tone,
  no original glyph and its key removed from the dirty set. The channels never decrease from
  the first frame to the second and stay between those of hover and base tone. The fraction
  and the channels are computed in exact real arithmetic.
\<close>

theorem settling_convergence:
  assumes "reachable s" "r < rows s" "c < cols s"
    and "state (grid s ! r ! c) = Settling"
    and "settleStart (grid s ! r ! c) \<le> now1" "now1 \<le> now2"
  shows "\<exists>s1 s2. animate now1 s = Inr s1 \<and> animate now2 s1 = Inr s2 \<and>
           (now1 - settleStart (grid s ! r ! c) < SETTLE_DURATION \<longrightarrow>
              state (grid s1 ! r ! c) = Settling \<and>
              color (grid s1 ! r ! c) =
                lerpColor HOVER_COLOR BASE_COLOR
                  (1 - (1 - min ((now1 - settleStart (grid s ! r ! c)) / SETTLE_DURATION) 1) ^ 3) \<and>
              hexToRGB (color (grid s1 ! r ! c)) =
                (\<lfloor>136 + 88 * (1 - (1 - min ((now1 - settleStart (grid s ! r ! c)) / SETTLE_DURATION) 1) ^ 3) + 1 / 2\<rfloor>,
                 \<lfloor>136 + 88 * (1 - (1 - min ((now1 - settleStart (grid s ! r ! c)) / SETTLE_DURATION) 1) ^ 3) + 1 / 2\<rfloor>,
                 \<lfloor>136 + 88 * (1 - (1 - min ((now1 - settleStart (grid s ! r ! c)) / SETTLE_DURATION) 1) ^ 3) + 1 / 2\<rfloor>) \<and>
              key r c \<in> set (dirtySet s1)) \<and>
           (SETTLE_DURATION \<le> now1 - settleStart (grid s ! r ! c) \<longrightarrow>
              state (grid s1 ! r ! c) = Idle \<and> color (grid s1 ! r ! c) = BASE_COLOR \<and>
              origSymbol (grid s1 ! r ! c) = None \<and> key r c \<notin> set (dirtySet s1)) \<and>
           (now2 - settleStart (grid s ! r ! c) < SETTLE_DURATION \<longrightarrow>
              state (grid s2 ! r ! c) = Settling \<and>
              color (grid s2 ! r ! c) =
                lerpColor HOVER_COLOR BASE_COLOR
                  (1 - (1 - min ((now2 - settleStart (grid s ! r ! c)) / SETTLE_DURATION) 1) ^ 3) \<and>
              hexToRGB (color (grid s2 ! r ! c)) =
                (\<lfloor>136 + 88 * (1 - (1 - min ((now2 - settleStart (grid s ! r ! c)) / SETTLE_DURATION) 1) ^ 3) + 1 / 2\<rfloor>,
                 \<lfloor>136 + 88 * (1 - (1 - min ((now2 - settleStart (grid s ! r ! c)) / SETTLE_DURATION) 1) ^ 3) + 1 / 2\<rfloor>,
                 \<lfloor>136 + 88 * (1 - (1 - min ((now2 - settleStart (grid s ! r ! c)) / SETTLE_DURATION) 1) ^ 3) + 1 / 2\<rfloor>) \<and>
              key r c \<in> set (dirtySet s2)) \<and>
           (SETTLE_DURATION \<le> now2 - settleStart (grid s ! r ! c) \<longrightarrow>
              state (grid s2 ! r ! c) = Idle \<and> color (grid s2 ! r ! c) = BASE_COLOR \<and>
              origSymbol (grid s2 ! r ! c) = None \<and> key r c \<notin> set (dirtySet s2)) \<and>
           rgb_le (hexToRGB HOVER_COLOR) (hexToRGB (color (grid s1 ! r ! c))) \<and>
           rgb_le (hexToRGB (color (grid s1 ! r ! c))) (hexToRGB (color (grid s2 ! r ! c))) \<and>
           rgb_le (hexToRGB (color (grid s2 ! r ! c))) (hexToRGB BASE_COLOR) \<and>
           hexToRGB HOVER_COLOR = (136, 136, 136) \<and> hexToRGB BASE_COLOR = (224, 224, 224)"
proof -
  note inv = reachable_inv [OF assms(1)]
  note lh = reachable_low_high [OF assms(1)]
  have "\<not> 10000 \<le> c" using lh assms(2) assms(3) assms(4) by (auto simp add: high_quiet_def)
  then have lo: "c < 10000" by simp
  then have k: "key r c \<in> set (dirtySet s)"
    using lh assms(2) assms(3) assms(4) by (simp add: low_covered_def)
  have tr: "tracked s r c" using inv assms(2) assms(3) lo k by (simp add: tracked_def)
  show ?thesis by (rule settling_frames [OF tr assms(4) assms(5) assms(6)])
qed

theorem settling_convergence_witness:
  "reachable settle_demo \<and> (0::nat) < rows settle_demo \<and> (0::nat) < cols settle_demo \<and>
   state (grid settle_demo ! 0 ! 0) = Settling \<and>
   settleStart (grid settle_demo ! 0 ! 0) = 700 \<and>
   (\<exists>s1 s2. animate 900 settle_demo = Inr s1 \<and> animate 1100 s1 = Inr s2 \<and>
      state (grid s1 ! 0 ! 0) = Settling \<and>
      color (grid s1 ! 0 ! 0) = ''#d5d5d5'' \<and>
      hexToRGB (color (grid s1 ! 0 ! 0)) = (213, 213, 213) \<and>
      key 0 0 \<in> set (dirtySet s1) \<and>
      state (grid s2 ! 0 ! 0) = Idle \<and> color (grid s2 ! 0 ! 0) = BASE_COLOR \<and>
      hexToRGB (color (grid s2 ! 0 ! 0)) = (224, 224, 224) \<and>
      origSymbol (grid s2 ! 0 ! 0) = None \<and> key 0 0 \<notin> set (dirtySet s2))"
proof -
  have rc: "(0::nat) < rows settle_demo" "(0::nat) < cols settle_demo" by simp_all
  have t1: "settleStart (grid settle_demo ! 0 ! 0) \<le> 900" by (simp add: settle_demo_cell)
  have t2: "(900::real) \<le> 1100" by simp
  have a: "900 - settleStart (grid settle_demo ! 0 ! 0) < SETTLE_DURATION"
    by (simp add: settle_demo_cell SETTLE_DURATION_def)
  have b: "SETTLE_DURATION \<le> 1100 - settleStart (grid settle_demo ! 0 ! 0)"
    by (simp add: settle_demo_cell SETTLE_DURATION_def)
  have f: "(1 - (1 - min ((900 - settleStart (grid settle_demo ! 0 ! 0)) / SETTLE_DURATION) 1) ^ 3) = (7 / 8 :: real)"
    by (simp add: settle_demo_cell SETTLE_DURATION_def power3_eq_cube)
  have v: "\<lfloor>136 + 88 * (7 / 8 :: real) + 1 / 2\<rfloor> = 213" by simp
  obtain s1 s2 where r: "animate 900 settle_demo = Inr s1" "animate 1100 s1 = Inr s2"
    and p1: "900 - settleStart (grid settle_demo ! 0 ! 0) < SETTLE_DURATION \<longrightarrow>
              state (grid s1 ! 0 ! 0) = Settling \<and>
              color (grid s1 ! 0 ! 0) =
                lerpColor HOVER_COLOR BASE_COLOR
                  (1 - (1 - min ((900 - settleStart (grid settle_demo ! 0 ! 0)) / SETTLE_DURATION) 1) ^ 3) \<and>
              hexToRGB (color (grid s1 ! 0 ! 0)) =
                (\<lfloor>136 + 88 * (1 - (1 - min ((900 - settleStart (grid settle_demo ! 0 ! 0)) / SETTLE_DURATION) 1) ^ 3) + 1 / 2\<rfloor>,
                 \<lfloor>136 + 88 * (1 - (1 - min ((900 - settleStart (grid settle_demo ! 0 ! 0)) / SETTLE_DURATION) 1) ^ 3) + 1 / 2\<rfloor>,
                 \<lfloor>136 + 88 * (1 - (1 - min ((900 - settleStart (grid settle_demo ! 0 ! 0)) / SETTLE_DURATION) 1) ^ 3) + 1 / 2\<rfloor>) \<and>
              key 0 0 \<in> set (dirtySet s1)"
    and p2: "SETTLE_DURATION \<le> 1100 - settleStart (grid settle_demo ! 0 ! 0) \<longrightarrow>
              state (grid s2 ! 0 ! 0) = Idle \<and> color (grid s2 ! 0 ! 0) = BASE_COLOR \<and>
              origSymbol (grid s2 ! 0 ! 0) = None \<and> key 0 0 \<notin> set (dirtySet s2)"
    using settling_convergence [OF settle_demo_reachable rc settle_demo_cell(1) t1 t2] by blast
  have q1: "state (grid s1 ! 0 ! 0) = Settling" "color (grid s1 ! 0 ! 0) = ''#d5d5d5''"
    "hexToRGB (color (grid s1 ! 0 ! 0)) = (213, 213, 213)" "key 0 0 \<in> set (dirtySet s1)"
    using p1 a unfolding f v by (simp_all add: lerp_at_seven_eighths hexToRGB_d5)
  have q2: "state (grid s2 ! 0 ! 0) = Idle" "color (grid s2 ! 0 ! 0) = BASE_COLOR"
    "origSymbol (grid s2 ! 0 ! 0) = None" "key 0 0 \<notin> set (dirtySet s2)"
    using p2 b by simp_all
  have q3: "hexToRGB (color (grid s2 ! 0 ! 0)) = (224, 224, 224)"
    by (simp add: q2 hexToRGB_BASE)
  show ?thesis using settle_demo_reachable rc settle_demo_cell r q1 q2 q3 by blast
qed

section \<open>The packed coordinate key\<close>

text \<open>
  Claim C9. For all natural numbers \<open>r\<close> and \<open>c\<close> with \<open>c < 10000\<close>, decoding the key
  \<open>r * 10000 + c\<close> by floor division and remainder gives \<open>(r, c)\<close> back, and two pairs
  in that range with the same key are the same pair.
\<close>

theorem key_round_trip:
  "c < 10000 \<Longrightarrow>
     key_row (key r c) = r \<and> key_col (key r c) = c \<and>
     (\<forall>r' c'. c' < 10000 \<and> key r' c' = key r c \<longrightarrow> r' = r \<and> c' = c)"
proof (intro conjI allI impI)
  assume c: "c < 10000"
  show "key_row (key r c) = r" using c by (simp add: key_row_def key_def)
  show "key_col (key r c) = c" using c by (simp add: key_col_def key_def)
  fix r' c'
  assume h: "c' < 10000 \<and> key r' c' = key r c"
  then have "(r' * 10000 + c') div 10000 = (r * 10000 + c) div 10000"
    and "(r' * 10000 + c') mod 10000 = (r * 10000 + c) mod 10000"
    by (simp_all add: key_def)
  with c h show "r' = r" and "c' = c" by simp_all
qed

theorem key_round_trip_witness:
  "(42::nat) < 10000 \<and> key 7 42 = 70042 \<and> key_row (key 7 42) = 7 \<and> key_col (key 7 42) = 42 \<and>
   key 8 42 \<noteq> key 7 42"
proof -
  have h: "(42::nat) < 10000" by simp
  note t = key_round_trip [OF h, of 7]
  have "key 8 42 \<noteq> key 7 42"
  proof
    assume "key 8 42 = key 7 42"
    with t h have "(8::nat) = 7" by blast
    then show False by simp
  qed
  moreover have "key 7 42 = 70042" by (simp add: key_def)
  ultimately show ?thesis using h t by blast
qed

end
